theory Spec2Isabelle
  imports Main "HOL-Library.AList"
begin

section \<open>Python strings\<close>

text \<open>
  A Python \<open>str\<close> is a sequence of Unicode code points, so a string is a list of code
  points (natural numbers). \<open>len\<close> is \<open>length\<close>, \<open>+\<close> is \<open>@\<close>, and a literal of the
  source is written \<open>u ''...''\<close> for its ASCII part, with the code point of an umlaut
  written out (a, o and u with diaeresis are 228, 246 and 252).
\<close>

type_synonym ustr = "nat list"

definition u :: "string \<Rightarrow> ustr" where
  "u s = map of_char s"

text \<open>
  \<open>str.isspace\<close> for one code point: the whitespace set of CPython, which is what
  \<open>str.strip()\<close> and \<open>str.split()\<close> without arguments use.
\<close>

definition is_space :: "nat \<Rightarrow> bool" where
  "is_space c \<longleftrightarrow>
     (9 \<le> c \<and> c \<le> 13) \<or> (28 \<le> c \<and> c \<le> 32) \<or> c = 133 \<or> c = 160 \<or> c = 5760 \<or>
     (8192 \<le> c \<and> c \<le> 8202) \<or> c = 8232 \<or> c = 8233 \<or> c = 8239 \<or> c = 8287 \<or> c = 12288"

text \<open>\<open>s.strip()\<close>: whitespace removed at both ends.\<close>

definition strip :: "ustr \<Rightarrow> ustr" where
  "strip s = rev (dropWhile is_space (rev (dropWhile is_space s)))"

text \<open>
  \<open>s.split()\<close>: the maximal runs of non-whitespace, in order. \<open>cur\<close> is the run being
  read.
\<close>

fun split_ws_from :: "ustr \<Rightarrow> ustr \<Rightarrow> ustr list" where
  "split_ws_from cur [] = (if cur = [] then [] else [cur])"
| "split_ws_from cur (c # cs) =
     (if is_space c
      then (if cur = [] then split_ws_from [] cs else cur # split_ws_from [] cs)
      else split_ws_from (cur @ [c]) cs)"

definition split_ws :: "ustr \<Rightarrow> ustr list" where
  "split_ws s = split_ws_from [] s"

text \<open>\<open>sep.join(parts)\<close>.\<close>

fun join :: "ustr \<Rightarrow> ustr list \<Rightarrow> ustr" where
  "join sep [] = []"
| "join sep [w] = w"
| "join sep (w # v # ws) = w @ sep @ join sep (v # ws)"

text \<open>\<open>s.startswith(p)\<close> and \<open>p in s\<close> (substring test).\<close>

definition startswith :: "ustr \<Rightarrow> ustr \<Rightarrow> bool" where
  "startswith s p \<longleftrightarrow> take (length p) s = p"

fun contains :: "ustr \<Rightarrow> ustr \<Rightarrow> bool" where
  "contains [] p = (p = [])"
| "contains (c # cs) p = (startswith (c # cs) p \<or> contains cs p)"

text \<open>
  \<open>s.replace(old, new)\<close>: every occurrence of \<open>old\<close>, found from the left without
  overlap. The source only passes a non-empty \<open>old\<close>; for an empty one this model
  leaves the string as it is.
\<close>

function replace :: "ustr \<Rightarrow> ustr \<Rightarrow> ustr \<Rightarrow> ustr" where
  "replace old new [] = []"
| "replace old new (c # cs) =
     (if old \<noteq> [] \<and> startswith (c # cs) old
      then new @ replace old new (drop (length old) (c # cs))
      else c # replace old new cs)"
  by pat_completeness auto
termination
  by (relation "measure (\<lambda>(old, new, s). length s)") auto

text \<open>
  \<open>s.split(sep)\<close> for a non-empty separator: the pieces between the occurrences of
  \<open>sep\<close>, found from the left without overlap. \<open>cur\<close> is the piece being read. Python
  raises ValueError for an empty separator; the source never passes one, and this
  model then returns the string as one piece.
\<close>

function split_from :: "ustr \<Rightarrow> ustr \<Rightarrow> ustr \<Rightarrow> ustr list" where
  "split_from sep cur [] = [cur]"
| "split_from sep cur (c # cs) =
     (if sep \<noteq> [] \<and> startswith (c # cs) sep
      then cur # split_from sep [] (drop (length sep) (c # cs))
      else split_from sep (cur @ [c]) cs)"
  by pat_completeness auto
termination
  by (relation "measure (\<lambda>(sep, cur, s). length s)") auto

definition split :: "ustr \<Rightarrow> ustr \<Rightarrow> ustr list" where
  "split s sep = split_from sep [] s"

text \<open>
  \<open>s.upper()\<close>. Python maps every code point through Unicode's upper-case table; the
  model maps the ASCII letters and leaves every other code point as it is. The only use
  in the source looks the result up in a dictionary whose keys are \<open>A\<close>, \<open>D\<close> and \<open>G\<close>,
  and the only strings that Python's table maps to one of these are the six one-letter
  strings \<open>a\<close>, \<open>d\<close>, \<open>g\<close>, \<open>A\<close>, \<open>D\<close>, \<open>G\<close>, so the lookup gives the same answer.
\<close>

definition upper_cp :: "nat \<Rightarrow> nat" where
  "upper_cp c = (if 97 \<le> c \<and> c \<le> 122 then c - 32 else c)"

definition upper :: "ustr \<Rightarrow> ustr" where
  "upper s = map upper_cp s"

section \<open>Preposition notation parser\<close>

text \<open>
  \<open>parse_preposition_case\<close> returns a pair; \<open>(None, None)\<close> is the failure. The
  dictionary \<open>case_mapping\<close> with its default is \<open>case_mapping_get\<close>.
\<close>

definition case_mapping_get :: "ustr \<Rightarrow> ustr" where
  "case_mapping_get case_code =
     (if case_code = u ''A'' then u ''accusative''
      else if case_code = u ''D'' then u ''dative''
      else if case_code = u ''G'' then u ''genitive''
      else u ''unknown'')"

definition clean_prep_string :: "ustr \<Rightarrow> ustr" where
  "clean_prep_string prep_string =
     join (u '' '') (split_ws (strip (replace (u ''+'') (u '' + '') prep_string)))"

definition parse_preposition_case :: "ustr \<Rightarrow> ustr option \<times> ustr option" where
  "parse_preposition_case prep_string =
     (if prep_string = [] then (None, None)
      else
        let cleaned = clean_prep_string prep_string in
        if \<not> contains cleaned (u '' + '') then (None, None)
        else
          let parts = split cleaned (u '' + '') in
          if length parts \<noteq> 2 then (None, None)
          else
            let preposition = strip (parts ! 0);
                case_code = upper (strip (parts ! 1))
            in (Some preposition, Some (case_mapping_get case_code)))"

section \<open>Randomness\<close>

text \<open>
  The generator of \<open>random\<close> is a stream of raw draws that the functions consume and
  hand on; \<open>randbelow n\<close> is a number below \<open>n\<close>. An exhausted stream draws 0.
\<close>

type_synonym rng = "nat list"

fun randbelow :: "nat \<Rightarrow> rng \<Rightarrow> nat \<times> rng" where
  "randbelow n [] = (0, [])"
| "randbelow n (r # g) = (r mod n, g)"

text \<open>
  \<open>random.sample(population, k)\<close>, as CPython draws it for a small population: \<open>k\<close>
  times, take the element at a random position of the pool and move the pool's last
  element into the hole. Python raises ValueError when \<open>k\<close> exceeds the population;
  the source passes \<open>min(3, len(population))\<close>, and the model stops on an empty pool.
\<close>

fun sample :: "'a list \<Rightarrow> nat \<Rightarrow> rng \<Rightarrow> 'a list \<times> rng" where
  "sample pool 0 g = ([], g)"
| "sample [] (Suc k) g = ([], g)"
| "sample (p # ps) (Suc k) g =
     (let (j, g1) = randbelow (length (p # ps)) g;
          x = (p # ps) ! j;
          pool' = butlast ((p # ps)[j := last (p # ps)]);
          (xs, g2) = sample pool' k g1
      in (x # xs, g2))"

text \<open>\<open>random.shuffle(x)\<close>: for \<open>i\<close> from the last index down to 1, swap \<open>x[i]\<close> with \<open>x[j]\<close>, \<open>j \<le> i\<close> random.\<close>

fun shuffle_from :: "nat \<Rightarrow> 'a list \<Rightarrow> rng \<Rightarrow> 'a list \<times> rng" where
  "shuffle_from 0 x g = (x, g)"
| "shuffle_from (Suc i) x g =
     (let (j, g1) = randbelow (Suc (Suc i)) g
      in shuffle_from i (x[Suc i := x ! j, j := x ! Suc i]) g1)"

definition shuffle :: "'a list \<Rightarrow> rng \<Rightarrow> 'a list \<times> rng" where
  "shuffle x g = shuffle_from (length x - 1) x g"

text \<open>\<open>random.choice(seq)\<close>: IndexError on an empty sequence.\<close>

datatype error = IndexError | KeyError | ZeroDivisionError

definition choice :: "'a list \<Rightarrow> rng \<Rightarrow> error + ('a \<times> rng)" where
  "choice seq g =
     (if seq = [] then Inl IndexError
      else let (j, g1) = randbelow (length seq) g in Inr (seq ! j, g1))"

section \<open>Distractor generator\<close>

definition common_prepositions :: "ustr list list" where
  "common_prepositions =
     [[u ''auf'', u ''f'' @ [252] @ u ''r'', u ''gegen'', u ''durch'', u ''ohne'', u ''um'',
       u ''an'', [252] @ u ''ber''],
      [u ''mit'', u ''von'', u ''zu'', u ''bei'', u ''nach'', u ''aus'', u ''vor'', u ''an''],
      [u ''in'', [252] @ u ''ber'', u ''unter'', u ''zwischen'', u ''neben'', u ''hinter'',
       u ''vor'']]"

text \<open>
  The set \<open>all_preps\<close> is a list without repetition. Python iterates a set in an order
  of its own; the model lists the elements in the order of their first insertion.
\<close>

definition set_update :: "'a list \<Rightarrow> 'a list \<Rightarrow> 'a list" where
  "set_update s xs = fold (\<lambda>x s. if x \<in> set s then s else s @ [x]) xs s"

definition all_preps :: "ustr list" where
  "all_preps = fold (\<lambda>prep_list s. set_update s prep_list) common_prepositions []"

definition generate_wrong_options :: "ustr \<Rightarrow> rng \<Rightarrow> ustr list \<times> rng" where
  "generate_wrong_options correct_preposition g =
     (let remaining = removeAll correct_preposition all_preps
      in sample remaining (min 3 (length remaining)) g)"

section \<open>Vocabulary loader\<close>

text \<open>
  A field value of a fetched record is a string, a dictionary, or something else (a
  number, a list, a boolean). The loader only asks a value for its truth value, for
  \<open>str(value)\<close> and, of a dictionary, for \<open>get\<close>; a dictionary and any other value
  carry their \<open>str\<close> rendering, and any other value its truth value.
\<close>

datatype fval = Str ustr | Dict "(ustr \<times> fval) list" ustr | Other bool ustr

fun truthy :: "fval \<Rightarrow> bool" where
  "truthy (Str s) = (s \<noteq> [])"
| "truthy (Dict d r) = (d \<noteq> [])"
| "truthy (Other t r) = t"

fun py_str :: "fval \<Rightarrow> ustr" where
  "py_str (Str s) = s"
| "py_str (Dict d r) = r"
| "py_str (Other t r) = r"

definition dict_get :: "(ustr \<times> fval) list \<Rightarrow> ustr \<Rightarrow> fval \<Rightarrow> fval" where
  "dict_get d k dflt = (case map_of d k of None \<Rightarrow> dflt | Some v \<Rightarrow> v)"

record airtable_record =
  rec_id :: ustr
  rec_fields :: "(ustr \<times> fval) list"

text \<open>
  An entry of \<open>words_data\<close>. The keys \<open>word\<close>, \<open>example_de\<close> and \<open>record_id\<close> are
  optional: the entries of the fallback dictionary do not have them.
\<close>

record entry =
  e_word :: "ustr option"
  e_preposition :: ustr
  e_case :: ustr
  e_example :: ustr
  e_wrong_options :: "ustr list"
  e_difficulty :: ustr
  e_english_translation :: ustr
  e_example_de :: "ustr option"
  e_original_prep_format :: ustr
  e_record_id :: "ustr option"

type_synonym words = "(ustr \<times> entry) list"

definition create_example_sentence :: "ustr \<Rightarrow> ustr \<Rightarrow> ustr \<Rightarrow> ustr" where
  "create_example_sentence word preposition english_translation =
     (if english_translation \<noteq> []
      then u ''I '' @ english_translation @ u '' something. (Ich '' @ word @ u '' '' @
           preposition @ u '' etwas.)''
      else u ''Ich '' @ word @ u '' '' @ preposition @ u '' etwas.'')"

text \<open>Lines 129-132 and 134-137: an optional field as a stripped string.\<close>

definition optional_text :: "(ustr \<times> fval) list \<Rightarrow> ustr \<Rightarrow> ustr" where
  "optional_text flds name =
     (let v = dict_get flds name (Str []);
          v = (case v of
                 Dict d r \<Rightarrow>
                   (let a = dict_get d (u ''value'') (Str [])
                    in if truthy a then a else dict_get d (u ''text'') (Str []))
               | _ \<Rightarrow> v)
      in if truthy v then strip (py_str v) else [])"

text \<open>Lines 120-121: a required field as a stripped string.\<close>

definition required_text :: "fval \<Rightarrow> ustr" where
  "required_text v = (if truthy v then strip (py_str v) else [])"

definition difficulty_of :: "ustr \<Rightarrow> ustr" where
  "difficulty_of word =
     (let difficulty = u ''beginner'';
          difficulty = (if startswith word (u ''sich '') \<or> length word > 8
                        then u ''intermediate'' else difficulty);
          difficulty = (if 228 \<in> set word \<or> 246 \<in> set word \<or> 252 \<in> set word
                        then u ''advanced'' else difficulty)
      in difficulty)"

text \<open>
  What one pass of the loop body decides about a record before it draws the wrong
  options: the record is skipped (for one of three reasons), or it is accepted with
  its key and its entry (the wrong options still empty).
\<close>

datatype verdict =
    Missing_fields
  | Empty_values
  | Unparsed ustr ustr
  | Accepted ustr entry

definition examine :: "airtable_record \<Rightarrow> verdict" where
  "examine record =
     (let flds = rec_fields record in
      case (map_of flds (u ''Word''), map_of flds (u ''Preposition'')) of
        (Some w, Some p) \<Rightarrow>
          (let word = required_text w;
               prep_string = required_text p
           in if word = [] \<or> prep_string = [] then Empty_values
              else
                let english_translation = optional_text flds (u ''English Translation'');
                    example_de = optional_text flds (u ''Example DE'')
                in case parse_preposition_case prep_string of
                     (Some preposition, Some case_name) \<Rightarrow>
                       if preposition = [] \<or> case_name = [] then Unparsed word prep_string
                       else
                         let example = (if example_de \<noteq> [] then example_de
                                        else create_example_sentence word preposition
                                               english_translation);
                             unique_key = word @ u ''_'' @ preposition
                         in Accepted unique_key
                              \<lparr>e_word = Some word,
                               e_preposition = preposition,
                               e_case = case_name,
                               e_example = example,
                               e_wrong_options = [],
                               e_difficulty = difficulty_of word,
                               e_english_translation = english_translation,
                               e_example_de = Some example_de,
                               e_original_prep_format = prep_string,
                               e_record_id = Some (rec_id record)\<rparr>
                   | _ \<Rightarrow> Unparsed word prep_string)
      | _ \<Rightarrow> Missing_fields)"

text \<open>What the loader prints.\<close>

datatype log_line =
    Found_total nat
  | Record_fields "ustr list"
  | Skipped_missing "ustr list"
  | Skipped_unparsed ustr ustr
  | Successfully_loaded nat
  | Skipped_total int
  | Error_loading ustr

record load_state =
  ls_words_data :: words
  ls_skipped_count :: int
  ls_log :: "log_line list"
  ls_rng :: rng

text \<open>The loop body, lines 107-177.\<close>

definition load_record :: "load_state \<Rightarrow> airtable_record \<Rightarrow> load_state" where
  "load_record st0 record =
     (let flds = rec_fields record;
          st = (if length (ls_words_data st0) < 3
                then st0\<lparr>ls_log := ls_log st0 @ [Record_fields (map fst flds)]\<rparr>
                else st0);
          skipped = ls_skipped_count st + 1
      in case examine record of
           Missing_fields \<Rightarrow>
             st\<lparr>ls_skipped_count := skipped,
                ls_log := (if skipped \<le> 5 then ls_log st @ [Skipped_missing (map fst flds)]
                           else ls_log st)\<rparr>
         | Empty_values \<Rightarrow> st\<lparr>ls_skipped_count := skipped\<rparr>
         | Unparsed word prep_string \<Rightarrow>
             st\<lparr>ls_skipped_count := skipped,
                ls_log := (if skipped \<le> 5 then ls_log st @ [Skipped_unparsed word prep_string]
                           else ls_log st)\<rparr>
         | Accepted unique_key e \<Rightarrow>
             (let (wrong_options, g) = generate_wrong_options (e_preposition e) (ls_rng st)
              in st\<lparr>ls_words_data :=
                      AList.update unique_key (e\<lparr>e_wrong_options := wrong_options\<rparr>)
                        (ls_words_data st),
                    ls_rng := g\<rparr>))"

text \<open>The dictionary returned when the fetch raises, lines 187-197.\<close>

definition fallback_data :: words where
  "fallback_data =
     [(u ''achten'',
       \<lparr>e_word = None,
        e_preposition = u ''auf'',
        e_case = u ''accusative'',
        e_example = u ''I pay attention to something. (Ich achte auf etwas.)'',
        e_wrong_options = [u ''f'' @ [252] @ u ''r'', u ''mit'', [252] @ u ''ber''],
        e_difficulty = u ''beginner'',
        e_english_translation = u ''pay attention to'',
        e_example_de = None,
        e_original_prep_format = u ''auf + A'',
        e_record_id = None\<rparr>)]"

text \<open>
  \<open>load_words_from_airtable\<close>. The fetch \<open>self.verbs_table.all()\<close> is the external
  source: its outcome, the records or the exception it raised, is the argument
  \<open>fetched\<close>. The function returns the dictionary; the lines it prints and the
  generator it leaves are returned beside it.
\<close>

definition load_words_from_airtable ::
  "ustr + airtable_record list \<Rightarrow> rng \<Rightarrow> words \<times> log_line list \<times> rng" where
  "load_words_from_airtable fetched g =
     (case fetched of
        Inr records \<Rightarrow>
          (let st = foldl load_record
                      \<lparr>ls_words_data = [], ls_skipped_count = 0,
                       ls_log = [Found_total (length records)], ls_rng = g\<rparr>
                      records
           in (ls_words_data st,
               ls_log st @ [Successfully_loaded (length (ls_words_data st)),
                            Skipped_total (ls_skipped_count st)],
               ls_rng st))
      | Inl e \<Rightarrow> (fallback_data, [Error_loading e], g))"

section \<open>The bot: sessions, statistics, grading\<close>

type_synonym uid = int

record stats =
  total_questions :: int
  correct_answers :: int
  streak :: int
  best_streak :: int

text \<open>The dictionary stored in \<open>current_quiz\<close> for a user, lines 339-347.\<close>

record quiz_data =
  q_word :: ustr
  q_correct_preposition :: ustr
  q_example :: ustr
  q_case :: ustr
  q_original_prep_format :: ustr
  q_english_translation :: ustr
  q_example_de :: ustr

text \<open>
  The state of the process: the three dictionaries of \<open>GermanVerbBot\<close> and the state of
  the \<open>random\<close> module.
\<close>

record bot =
  words_data :: words
  current_quiz :: "uid \<rightharpoonup> quiz_data"
  user_stats :: "uid \<rightharpoonup> stats"
  random_state :: rng

record alternative =
  alt_preposition :: ustr
  alt_prep_format :: ustr
  alt_example :: ustr
  alt_english :: ustr

text \<open>
  \<open>get_alternative_prepositions\<close>: the loop reads \<open>data['word']\<close> of every entry, in the
  order of the dictionary, and raises KeyError at the first entry without that key.
  \<open>alternative_of\<close> is the dictionary it appends for an entry, lines 81-86.
\<close>

definition alternative_of :: "entry \<Rightarrow> alternative" where
  "alternative_of data =
     \<lparr>alt_preposition = e_preposition data,
      alt_prep_format = e_original_prep_format data,
      alt_example =
        (case e_example_de data of
           Some d \<Rightarrow> if d \<noteq> [] then d else e_example data
         | None \<Rightarrow> e_example data),
      alt_english = e_english_translation data\<rparr>"

fun get_alternative_prepositions :: "words \<Rightarrow> ustr \<Rightarrow> ustr \<Rightarrow> error + alternative list" where
  "get_alternative_prepositions [] word current_preposition = Inr []"
| "get_alternative_prepositions ((key, data) # rest) word current_preposition =
     (case e_word data of
        None \<Rightarrow> Inl KeyError
      | Some w \<Rightarrow>
          if w = word \<and> e_preposition data \<noteq> current_preposition
          then (case get_alternative_prepositions rest word current_preposition of
                  Inl e \<Rightarrow> Inl e
                | Inr alternatives \<Rightarrow> Inr (alternative_of data # alternatives))
          else get_alternative_prepositions rest word current_preposition)"

text \<open>
  What a handler hands to the chat transport. A message is the tuple of the values
  that the source interpolates into its template; the fixed text of the template and
  the delivery of the message are outside the model. The accuracy shown is
  \<open>correct_answers / total_questions * 100\<close>: the message carries the two counters.
\<close>

record shown =
  s_word :: ustr
  s_original_prep_format :: ustr
  s_example_text :: ustr
  s_english :: "ustr option"
  s_correct_answers :: int
  s_total_questions :: int

datatype response =
    Welcome nat
  | Help_text
  | Stats_text stats nat
  | Refreshed nat
  | Quiz ustr "ustr list"
  | Start_first
  | Correct shown int
  | Also_correct shown int ustr ustr ustr
  | Not_quite shown bool

definition zero_stats :: stats where
  "zero_stats = \<lparr>total_questions = 0, correct_answers = 0, streak = 0, best_streak = 0\<rparr>"

text \<open>The counters of a user; a user the bot has not met yet has them at zero.\<close>

definition stats_of :: "bot \<Rightarrow> uid \<Rightarrow> stats" where
  "stats_of b user_id = (case user_stats b user_id of Some s \<Rightarrow> s | None \<Rightarrow> zero_stats)"

definition init_stats :: "bot \<Rightarrow> uid \<Rightarrow> bot" where
  "init_stats b user_id =
     (if user_stats b user_id = None
      then b\<lparr>user_stats := (user_stats b)(user_id \<mapsto> zero_stats)\<rparr>
      else b)"

text \<open>\<open>start_quiz\<close>, lines 319-376.\<close>

definition start_quiz :: "bot \<Rightarrow> uid \<Rightarrow> bot \<times> (error + response)" where
  "start_quiz b user_id =
     (let available_words = words_data b in
      case choice (map fst available_words) (random_state b) of
        Inl e \<Rightarrow> (b, Inl e)
      | Inr (unique_key, g1) \<Rightarrow>
          (let b1 = b\<lparr>random_state := g1\<rparr> in
           case map_of available_words unique_key of
             None \<Rightarrow> (b1, Inl KeyError)
           | Some word_data \<Rightarrow>
               (case e_word word_data of
                  None \<Rightarrow> (b1, Inl KeyError)
                | Some word \<Rightarrow>
                    (let correct_prep = e_preposition word_data;
                         wrong_preps = e_wrong_options word_data;
                         (all_options, g2) = shuffle (correct_prep # wrong_preps) g1;
                         quiz = \<lparr>q_word = word,
                                 q_correct_preposition = correct_prep,
                                 q_example = e_example word_data,
                                 q_case = e_case word_data,
                                 q_original_prep_format = e_original_prep_format word_data,
                                 q_english_translation = e_english_translation word_data,
                                 q_example_de =
                                   (case e_example_de word_data of None \<Rightarrow> [] | Some d \<Rightarrow> d)\<rparr>
                     in (b1\<lparr>random_state := g2,
                            current_quiz := (current_quiz b1)(user_id \<mapsto> quiz)\<rparr>,
                         Inr (Quiz word all_options))))))"

text \<open>The update of the counters that both correct branches make, lines 429-432 and 455-458.\<close>

definition count_correct :: "stats \<Rightarrow> stats" where
  "count_correct s0 =
     (let s1 = s0\<lparr>correct_answers := correct_answers s0 + 1\<rparr>;
          s2 = s1\<lparr>streak := streak s1 + 1\<rparr>
      in if streak s2 > best_streak s2 then s2\<lparr>best_streak := streak s2\<rparr> else s2)"

text \<open>
  The three branches of the grading, lines 422-511: from the session, the counters
  (already counting this question), the alternatives and the answer to the new
  counters and the message. \<open>any(...)\<close> and \<open>next(...)\<close> over the alternatives are one
  \<open>find\<close>. The case letter shown for an alternative is the second piece of its
  notation when that contains the separator.
\<close>

definition grade :: "quiz_data \<Rightarrow> stats \<Rightarrow> alternative list \<Rightarrow> ustr \<Rightarrow> stats \<times> response" where
  "grade qd s1 alternatives user_answer =
     (let is_correct = (user_answer = q_correct_preposition qd);
          chosen = find (\<lambda>alt. alt_preposition alt = user_answer) alternatives;
          s2 = (if is_correct \<or> chosen \<noteq> None then count_correct s1
                else s1\<lparr>streak := 0\<rparr>);
          example_text = (if q_example_de qd \<noteq> [] then q_example_de qd else q_example qd);
          sh = \<lparr>s_word = q_word qd,
                s_original_prep_format = q_original_prep_format qd,
                s_example_text = example_text,
                s_english = (if q_english_translation qd \<noteq> []
                             then Some (q_english_translation qd) else None),
                s_correct_answers = correct_answers s2,
                s_total_questions = total_questions s2\<rparr>
      in (s2,
          if is_correct then Correct sh (streak s2)
          else case chosen of
                 Some chosen_alt \<Rightarrow>
                   Also_correct sh (streak s2) user_answer
                     (if contains (alt_prep_format chosen_alt) (u '' + '')
                      then split (alt_prep_format chosen_alt) (u '' + '') ! 1
                      else [])
                     (alt_example chosen_alt)
               | None \<Rightarrow> Not_quite sh (alternatives \<noteq> [])))"

text \<open>
  \<open>handle_quiz_answer\<close>, lines 407-524; \<open>data\<close> is \<open>query.data\<close>. The counters are
  dictionary entries changed in place, so what was changed before an exception stays
  changed: the state is returned beside the error. Building the message divides by
  \<open>total_questions\<close>. The session is deleted last.
\<close>

definition handle_quiz_answer :: "bot \<Rightarrow> uid \<Rightarrow> ustr \<Rightarrow> bot \<times> (error + response)" where
  "handle_quiz_answer b user_id data =
     (case current_quiz b user_id of
        None \<Rightarrow> (b, Inr Start_first)
      | Some qd \<Rightarrow>
          (let user_answer = replace (u ''answer_'') [] data in
           case user_stats b user_id of
             None \<Rightarrow> (b, Inl KeyError)
           | Some s0 \<Rightarrow>
               (let s1 = s0\<lparr>total_questions := total_questions s0 + 1\<rparr>;
                    b1 = b\<lparr>user_stats := (user_stats b)(user_id \<mapsto> s1)\<rparr>
                in case get_alternative_prepositions (words_data b1) (q_word qd)
                          (q_correct_preposition qd) of
                     Inl e \<Rightarrow> (b1, Inl e)
                   | Inr alternatives \<Rightarrow>
                       (let (s2, response) = grade qd s1 alternatives user_answer;
                            b2 = b1\<lparr>user_stats := (user_stats b1)(user_id \<mapsto> s2)\<rparr>
                        in if total_questions s2 = 0 then (b2, Inl ZeroDivisionError)
                           else (b2\<lparr>current_quiz := (current_quiz b2)(user_id := None)\<rparr>,
                                 Inr response)))))"

text \<open>\<open>handle_button_click\<close>, lines 378-405: \<open>None\<close> when no branch matches and nothing is sent.\<close>

definition handle_button_click :: "bot \<Rightarrow> uid \<Rightarrow> ustr \<Rightarrow> bot \<times> (error + response option)" where
  "handle_button_click b0 user_id data =
     (let b = init_stats b0 user_id;
          some = (\<lambda>(b', r). (b', map_sum id Some r))
      in if startswith data (u ''quiz_'') then some (start_quiz b user_id)
         else if data = u ''show_stats''
         then (b, Inr (Some (Stats_text (stats_of b user_id) (length (words_data b)))))
         else if data = u ''help'' then (b, Inr (Some Help_text))
         else if startswith data (u ''answer_'') then some (handle_quiz_answer b user_id data)
         else (b, Inr None))"

text \<open>
  What reaches the bot: the commands \<open>/start\<close>, \<open>/quiz\<close>, \<open>/help\<close>, \<open>/stats\<close> and
  \<open>/refresh\<close> (which carries the outcome of its fetch) and a button click with its
  callback data.
\<close>

datatype event =
    Cmd_start uid
  | Cmd_quiz uid
  | Cmd_help uid
  | Cmd_stats uid
  | Cmd_refresh "ustr + airtable_record list"
  | Button_click uid ustr

fun handle_event :: "bot \<Rightarrow> event \<Rightarrow> bot \<times> (error + response option)" where
  "handle_event b (Cmd_start user_id) =
     (let b' = init_stats b user_id in (b', Inr (Some (Welcome (length (words_data b'))))))"
| "handle_event b (Cmd_quiz user_id) =
     (let (b', r) = start_quiz b user_id in (b', map_sum id Some r))"
| "handle_event b (Cmd_help user_id) = (b, Inr (Some Help_text))"
| "handle_event b (Cmd_stats user_id) =
     (let b' = init_stats b user_id
      in (b', Inr (Some (Stats_text (stats_of b' user_id) (length (words_data b'))))))"
| "handle_event b (Cmd_refresh fetched) =
     (let (wd, lg, g) = load_words_from_airtable fetched (random_state b);
          b' = b\<lparr>words_data := wd, random_state := g\<rparr>
      in (b', Inr (Some (Refreshed (length wd)))))"
| "handle_event b (Button_click user_id data) = handle_button_click b user_id data"

text \<open>\<open>__init__\<close>: empty dictionaries and the vocabulary loaded from the source.\<close>

definition new_bot :: "ustr + airtable_record list \<Rightarrow> rng \<Rightarrow> bot" where
  "new_bot fetched g0 =
     (let (wd, lg, g) = load_words_from_airtable fetched g0
      in \<lparr>words_data = wd, current_quiz = Map.empty, user_stats = Map.empty,
          random_state = g\<rparr>)"

text \<open>The state after a sequence of events.\<close>

definition run :: "bot \<Rightarrow> event list \<Rightarrow> bot" where
  "run b evs = foldl (\<lambda>b ev. fst (handle_event b ev)) b evs"

section \<open>Predicates for the statements\<close>

text \<open>A verdict that accepts the record, and a printed line that reports a count.\<close>

fun accepted :: "verdict \<Rightarrow> bool" where
  "accepted (Accepted k e) = True"
| "accepted _ = False"

fun is_count :: "log_line \<Rightarrow> bool" where
  "is_count (Found_total n) = True"
| "is_count (Successfully_loaded n) = True"
| "is_count (Skipped_total n) = True"
| "is_count _ = False"

text \<open>
  The shape of an entry that the loop of the loader stores under the key \<open>k\<close>: it has
  the three optional keys, \<open>k\<close> is its word, an underscore and its preposition, and a
  non-empty \<open>example_de\<close> is its example. An index of such entries with distinct keys
  is what the loop maintains.
\<close>

definition loaded_entry :: "ustr \<Rightarrow> entry \<Rightarrow> bool" where
  "loaded_entry k e =
     (case (e_word e, e_example_de e, e_record_id e) of
        (Some w, Some d, Some r) \<Rightarrow>
          k = w @ u ''_'' @ e_preposition e \<and> (d = [] \<or> e_example e = d)
      | _ \<Rightarrow> False)"

definition loaded_index :: "words \<Rightarrow> bool" where
  "loaded_index wd \<longleftrightarrow> distinct (map fst wd) \<and> (\<forall>(k, e)\<in>set wd. loaded_entry k e)"

text \<open>
  What one event can do to the counters of a user: nothing, count a question, count a
  question answered correctly, or count a question and reset the streak. And the two
  kinds of index the bot can hold: a loaded one, or the fallback.
\<close>

definition counted :: "stats \<Rightarrow> stats \<Rightarrow> bool" where
  "counted s s' \<longleftrightarrow>
     s' = s \<or> s' = s\<lparr>total_questions := total_questions s + 1\<rparr> \<or>
     s' = count_correct (s\<lparr>total_questions := total_questions s + 1\<rparr>) \<or>
     s' = s\<lparr>total_questions := total_questions s + 1, streak := 0\<rparr>"

definition index_ok :: "words \<Rightarrow> bool" where
  "index_ok wd \<longleftrightarrow> loaded_index wd \<or> wd = fallback_data"

section \<open>Facts about the string functions\<close>

lemma u_simps:
  "u [] = []" "u (c # cs) = of_char c # u cs"
  by (simp_all add: u_def)

lemma sep_eq: "u '' + '' = [32, 43, 32]" "u '' '' = [32]" "u ''+'' = [43]"
  by (simp_all add: u_def)

lemma is_space_32: "is_space 32" by (simp add: is_space_def)
lemma not_space_43: "\<not> is_space 43" by (simp add: is_space_def)

lemma split_ws_from_spaces:
  "\<forall>x\<in>set w. is_space x \<Longrightarrow> split_ws_from [] (w @ b) = split_ws_from [] b"
  by (induction w) auto

lemma split_ws_from_trailing:
  "\<forall>x\<in>set w. is_space x \<Longrightarrow> split_ws_from cur (a @ w) = split_ws_from cur a"
proof (induction a arbitrary: cur)
  case Nil
  have "split_ws_from [] w = []" using Nil split_ws_from_spaces[of w "[]"] by simp
  then show ?case using Nil by (cases w) auto
next
  case (Cons x a)
  then show ?case by simp
qed

lemma split_ws_from_at_space:
  "is_space s \<Longrightarrow> split_ws_from cur (a @ s # b) = split_ws_from cur a @ split_ws_from [] b"
  by (induction a arbitrary: cur) auto

lemma split_ws_from_word:
  "\<forall>x\<in>set a. \<not> is_space x \<Longrightarrow> split_ws_from cur (a @ b) = split_ws_from (cur @ a) b"
  by (induction a arbitrary: cur) auto

lemma split_ws_dropWhile: "split_ws_from [] (dropWhile is_space t) = split_ws_from [] t"
  by (induction t) auto

lemma split_ws_strip: "split_ws (strip t) = split_ws t"
proof -
  define d where "d = dropWhile is_space t"
  define a where "a = rev (dropWhile is_space (rev d))"
  define w where "w = rev (takeWhile is_space (rev d))"
  have "rev (takeWhile is_space (rev d) @ dropWhile is_space (rev d)) = d"
    by (simp only: takeWhile_dropWhile_id rev_rev_ident)
  then have d: "a @ w = d" by (simp only: rev_append a_def w_def)
  have "\<forall>x\<in>set w. is_space x"
    unfolding w_def by (auto dest: set_takeWhileD)
  then have "split_ws_from [] (a @ w) = split_ws_from [] a"
    by (rule split_ws_from_trailing)
  then have "split_ws_from [] a = split_ws_from [] t"
    by (simp only: d) (simp add: d_def split_ws_dropWhile)
  then show ?thesis by (simp add: split_ws_def strip_def a_def d_def)
qed

lemma split_ws_from_words:
  "\<forall>x\<in>set cur. \<not> is_space x \<Longrightarrow>
     \<forall>w\<in>set (split_ws_from cur t). w \<noteq> [] \<and> (\<forall>x\<in>set w. \<not> is_space x)"
proof (induction t arbitrary: cur)
  case Nil
  then show ?case by simp
next
  case (Cons c t)
  show ?case
  proof (cases "is_space c")
    case True
    have ih: "\<forall>w\<in>set (split_ws_from [] t). w \<noteq> [] \<and> (\<forall>x\<in>set w. \<not> is_space x)"
      by (rule Cons.IH) simp
    show ?thesis
    proof (cases "cur = []")
      case True
      with \<open>is_space c\<close> ih show ?thesis by simp
    next
      case False
      with \<open>is_space c\<close> ih Cons.prems show ?thesis by simp
    qed
  next
    case False
    have "\<forall>x\<in>set (cur @ [c]). \<not> is_space x" using False Cons.prems by simp
    then have "\<forall>w\<in>set (split_ws_from (cur @ [c]) t). w \<noteq> [] \<and> (\<forall>x\<in>set w. \<not> is_space x)"
      by (rule Cons.IH)
    with False show ?thesis by simp
  qed
qed

lemma join_Cons: "ws \<noteq> [] \<Longrightarrow> join sep (w # ws) = w @ sep @ join sep ws"
  by (cases ws) simp_all

lemma join_append:
  "xs \<noteq> [] \<Longrightarrow> ys \<noteq> [] \<Longrightarrow> join sep (xs @ ys) = join sep xs @ sep @ join sep ys"
proof (induction xs)
  case Nil
  then show ?case by simp
next
  case (Cons x xs)
  show ?case
  proof (cases "xs = []")
    case True
    then show ?thesis using Cons.prems by (simp add: join_Cons)
  next
    case False
    then show ?thesis using Cons by (simp add: join_Cons)
  qed
qed

lemma join_hd:
  "ws \<noteq> [] \<Longrightarrow> \<forall>w\<in>set ws. w \<noteq> [] \<Longrightarrow> join sep ws \<noteq> [] \<and> hd (join sep ws) = hd (hd ws)"
  by (induction sep ws rule: join.induct) auto

lemma join_last:
  "ws \<noteq> [] \<Longrightarrow> \<forall>w\<in>set ws. w \<noteq> [] \<Longrightarrow> last (join sep ws) = last (last ws)"
  by (induction sep ws rule: join.induct) (auto simp: join_hd)

lemma strip_id:
  assumes "p \<noteq> []" "\<not> is_space (hd p)" "\<not> is_space (last p)"
  shows "strip p = p"
proof -
  have 1: "dropWhile is_space p = p" using assms by (cases p) auto
  define l where "l = last p"
  define ys where "ys = butlast p"
  have ys: "p = ys @ [l]" using assms(1) by (simp add: ys_def l_def)
  have "\<not> is_space l" using assms l_def by simp
  then have "dropWhile is_space (rev p) = rev p" by (simp add: ys)
  then show ?thesis by (simp add: strip_def 1)
qed

lemma normalised_strip:
  assumes "join (u '' '') (split_ws p) = p" "p \<noteq> []"
  shows "strip p = p"
proof -
  let ?ws = "split_ws p"
  have ne: "?ws \<noteq> []" using assms by auto
  have words: "\<forall>w\<in>set ?ws. w \<noteq> [] \<and> (\<forall>x\<in>set w. \<not> is_space x)"
    using split_ws_from_words[of "[]" p] by (simp add: split_ws_def)
  then have w: "\<forall>w\<in>set ?ws. w \<noteq> []" by blast
  have "hd ?ws \<in> set ?ws" "last ?ws \<in> set ?ws" using ne by auto
  then have "\<not> is_space (hd (hd ?ws))" "\<not> is_space (last (last ?ws))"
    using words by (auto simp: )
  then have "\<not> is_space (hd p)" "\<not> is_space (last p)"
    using join_hd[OF ne w, of "u '' ''"] join_last[OF ne w, of "u '' ''"] assms by auto
  then show ?thesis using strip_id assms by blast
qed

lemma replace_plus:
  "replace [43] new s = concat (map (\<lambda>x. if x = 43 then new else [x]) s)"
  by (induction s) (auto simp: startswith_def)

lemma concat_no_plus:
  "43 \<notin> set a \<Longrightarrow> concat (map (\<lambda>x. if x = 43 then new else [x::nat]) a) = a"
  by (induction a) auto

lemma contains_prefix: "sep \<noteq> [] \<Longrightarrow> contains (sep @ b) sep"
  by (cases sep) (simp_all add: startswith_def)

lemma contains_append: "sep \<noteq> [] \<Longrightarrow> contains (a @ sep @ b) sep"
  by (induction a) (simp_all add: contains_prefix)

lemma split_from_no_sep:
  "\<not> contains s sep \<Longrightarrow> split_from sep cur s = [cur @ s]"
  by (induction s arbitrary: cur) auto

lemma split_from_plus:
  "43 \<notin> set a \<Longrightarrow>
     split_from [32, 43, 32] cur (a @ [32, 43, 32] @ b) = (cur @ a) # split_from [32, 43, 32] [] b"
proof (induction a arbitrary: cur)
  case Nil
  then show ?case by (simp add: startswith_def)
next
  case (Cons x a)
  have "\<not> startswith (x # a @ [32, 43, 32] @ b) [32, 43, 32]"
    using Cons.prems by (cases a) (auto simp: startswith_def)
  then show ?case using Cons by simp
qed

lemma startswith_plus: "startswith s [32, 43, 32] \<Longrightarrow> 43 \<in> set s"
proof -
  assume "startswith s [32, 43, 32]"
  then have t: "take (length [32, 43, 32::nat]) s = [32, 43, 32]"
    unfolding startswith_def .
  have "43 \<in> set [32, 43, 32::nat]" by simp
  then have "43 \<in> set (take (length [32, 43, 32::nat]) s)" by (simp only: t)
  then show ?thesis by (rule in_set_takeD)
qed

lemma no_plus_no_sep: "43 \<notin> set c \<Longrightarrow> \<not> contains c [32, 43, 32]"
proof (induction c)
  case Nil
  then show ?case by simp
next
  case (Cons x c)
  then show ?case using startswith_plus[of "x # c"] by auto
qed

lemma split_ws_single:
  "c \<noteq> [] \<Longrightarrow> \<forall>x\<in>set c. \<not> is_space x \<Longrightarrow> split_ws_from [] c = [c]"
  using split_ws_from_word[of c "[]" "[]"] by simp

lemma space_not_plus: "\<forall>x\<in>set w. is_space x \<Longrightarrow> 43 \<notin> set w"
  using not_space_43 by blast

lemma clean_valid:
  assumes p: "p \<noteq> []" "43 \<notin> set p" "join (u '' '') (split_ws p) = p"
      and w: "\<forall>x\<in>set w1. is_space x" "\<forall>x\<in>set w2. is_space x"
      and c: "c \<noteq> []" "\<forall>x\<in>set c. \<not> is_space x" "43 \<notin> set c"
  shows "clean_prep_string (p @ w1 @ u ''+'' @ w2 @ c) = p @ u '' + '' @ c"
proof -
  have "43 \<notin> set w1" "43 \<notin> set w2" using w space_not_plus by blast+
  then have r: "replace (u ''+'') (u '' + '') (p @ w1 @ u ''+'' @ w2 @ c) =
      p @ (w1 @ [32]) @ 43 # (32 # w2) @ c"
    using p(2) c(3) by (simp add: sep_eq replace_plus concat_no_plus)
  have sp: "\<forall>x\<in>set (w1 @ [32]). is_space x" "\<forall>x\<in>set (32 # w2). is_space x"
    using w is_space_32 by auto
  obtain s w1' where w1': "w1 @ [32] = s # w1'" by (cases w1) auto
  then have s: "is_space s" "\<forall>x\<in>set w1'. is_space x"
    using sp(1) by (metis list.set_intros(1), metis list.set_intros(2))
  have tail: "split_ws_from [] (43 # (32 # w2) @ c) = [[43], c]"
    using split_ws_from_spaces[OF w(2), of c] split_ws_single[OF c(1) c(2)]
    by (simp add: not_space_43 is_space_32)
  have "split_ws_from [] (p @ (w1 @ [32]) @ 43 # (32 # w2) @ c) =
        split_ws_from [] (p @ s # (w1' @ 43 # (32 # w2) @ c))"
    by (simp only: w1' append_Cons append_assoc)
  also have "\<dots> = split_ws_from [] p @ split_ws_from [] (w1' @ 43 # (32 # w2) @ c)"
    using s(1) by (rule split_ws_from_at_space)
  also have "\<dots> = split_ws_from [] p @ [[43], c]"
    using split_ws_from_spaces[OF s(2)] tail by simp
  finally have ws: "split_ws (p @ (w1 @ [32]) @ 43 # (32 # w2) @ c) = split_ws p @ [[43], c]"
    by (simp add: split_ws_def)
  have ne: "split_ws p \<noteq> []" using p(1) p(3) by auto
  have j: "join (u '' '') (split_ws p @ [[43], c]) = p @ u '' + '' @ c"
    using join_append[OF ne, of "[[43], c]" "u '' ''"] p(3) by (simp add: sep_eq)
  have "clean_prep_string (p @ w1 @ u ''+'' @ w2 @ c) =
        join (u '' '') (split_ws (strip (p @ (w1 @ [32]) @ 43 # (32 # w2) @ c)))"
    by (simp only: clean_prep_string_def r)
  also have "\<dots> = join (u '' '') (split_ws p @ [[43], c])"
    by (simp only: split_ws_strip ws)
  finally show ?thesis by (simp only: j)
qed

lemma parse_canonical:
  assumes p: "p \<noteq> []" "43 \<notin> set p" "join (u '' '') (split_ws p) = p"
      and w: "\<forall>x\<in>set w1. is_space x" "\<forall>x\<in>set w2. is_space x"
      and c: "c \<noteq> []" "\<forall>x\<in>set c. \<not> is_space x" "43 \<notin> set c"
  shows "parse_preposition_case (p @ w1 @ u ''+'' @ w2 @ c) =
           (Some p, Some (case_mapping_get (upper c)))"
proof -
  have cl: "clean_prep_string (p @ w1 @ u ''+'' @ w2 @ c) = p @ [32, 43, 32] @ c"
    using clean_valid[OF assms] by (simp add: sep_eq)
  have co: "contains (p @ [32, 43, 32] @ c) [32, 43, 32]"
    by (rule contains_append) simp
  have sp: "split (p @ [32, 43, 32] @ c) [32, 43, 32] = [p, c]"
    using split_from_plus[OF p(2), of "[]" c] split_from_no_sep[OF no_plus_no_sep[OF c(3)], of "[]"]
    by (simp add: split_def)
  have "hd c \<in> set c" "last c \<in> set c" using c(1) by auto
  then have sc: "strip c = c" using strip_id[OF c(1)] c(2) by blast
  have spp: "strip p = p" using normalised_strip[OF p(3) p(1)] .
  have "p @ w1 @ u ''+'' @ w2 @ c \<noteq> []" using p(1) by simp
  then show ?thesis
    using co sp sc spp
    by (simp only: parse_preposition_case_def cl Let_def) (simp add: sep_eq)
qed

lemma letters: "u ''A'' = [65]" "u ''D'' = [68]" "u ''G'' = [71]"
  by (simp_all add: u_def)

section \<open>The parser\<close>

text \<open>
  Claim C2, as the code has it. Let \<open>p\<close> be a non-empty string without \<open>+\<close> that
  \<open>' '.join(p.split())\<close> leaves unchanged (no whitespace at its ends, single spaces
  between its words), \<open>c\<close> one of the letters \<open>A\<close>, \<open>D\<close>, \<open>G\<close>, and \<open>w1\<close>, \<open>w2\<close> any
  strings of whitespace. Then parsing \<open>p w1 + w2 c\<close> returns \<open>p\<close> and the name of the
  case of \<open>c\<close>. With \<open>w1\<close> and \<open>w2\<close> one space this is the notation \<open>p + c\<close>, with both
  empty it is \<open>p+c\<close>.
\<close>

theorem parse_valid_notation:
  assumes "p \<noteq> []" and "43 \<notin> set p" and "join (u '' '') (split_ws p) = p"
      and "\<forall>x\<in>set w1. is_space x" and "\<forall>x\<in>set w2. is_space x"
      and "c \<in> {u ''A'', u ''D'', u ''G''}"
  shows "parse_preposition_case (p @ w1 @ u ''+'' @ w2 @ c) =
           (Some p, Some (if c = u ''A'' then u ''accusative''
                          else if c = u ''D'' then u ''dative'' else u ''genitive''))"
proof -
  have c: "c \<noteq> []" "\<forall>x\<in>set c. \<not> is_space x" "43 \<notin> set c" "upper c = c"
    using assms(6) by (auto simp: letters is_space_def upper_def upper_cp_def)
  have "case_mapping_get c = (if c = u ''A'' then u ''accusative''
                          else if c = u ''D'' then u ''dative'' else u ''genitive'')"
    using assms(6) by (auto simp: case_mapping_get_def)
  then show ?thesis
    using parse_canonical[OF assms(1-5) c(1-3)] c(4) by simp
qed

theorem parse_valid_notation_witness:
  "parse_preposition_case (u ''auf + A'') = (Some (u ''auf''), Some (u ''accusative'')) \<and>
   parse_preposition_case (u ''auf+A'') = (Some (u ''auf''), Some (u ''accusative''))"
proof -
  have h: "u ''auf'' \<noteq> []" "43 \<notin> set (u ''auf'')"
    "join (u '' '') (split_ws (u ''auf'')) = u ''auf''"
    "\<forall>x\<in>set (u '' ''). is_space x" "\<forall>x\<in>set []. is_space x"
    "u ''A'' \<in> {u ''A'', u ''D'', u ''G''}"
    by (simp_all add: u_def split_ws_def is_space_def)
  have e: "u ''auf + A'' = u ''auf'' @ u '' '' @ u ''+'' @ u '' '' @ u ''A''"
     "u ''auf+A'' = u ''auf'' @ [] @ u ''+'' @ [] @ u ''A''"
    by (simp_all add: u_def)
  show ?thesis
    using parse_valid_notation[OF h(1-3) h(4) h(4) h(6)]
      parse_valid_notation[OF h(1-3) h(5) h(5) h(6)]
    unfolding e by simp
qed

text \<open>
  Claim C2 as it is stated, for every string \<open>p\<close>, fails: for the empty \<open>p\<close> and for a
  \<open>p\<close> with a \<open>+\<close> the parser returns \<open>(None, None)\<close>, and for a \<open>p\<close> with two spaces
  between its words it returns the words joined by one space.
\<close>

theorem parse_every_string_counterexample:
  "parse_preposition_case ([] @ u '' + '' @ u ''A'') \<noteq> (Some [], Some (u ''accusative'')) \<and>
   parse_preposition_case (u ''a+b'' @ u '' + '' @ u ''A'') \<noteq>
     (Some (u ''a+b''), Some (u ''accusative'')) \<and>
   parse_preposition_case (u ''bis  zu'' @ u '' + '' @ u ''A'') \<noteq>
     (Some (u ''bis  zu''), Some (u ''accusative''))"
  by (simp add: parse_preposition_case_def clean_prep_string_def u_def strip_def is_space_def
      split_ws_def startswith_def split_def upper_def upper_cp_def case_mapping_get_def)

text \<open>
  Claim C7. Whenever the cleaned notation splits into exactly two parts and the right
  part, stripped and in upper case, is none of \<open>A\<close>, \<open>D\<close>, \<open>G\<close>, the parser returns the
  left part with the case \<open>unknown\<close>, not \<open>(None, None)\<close>. In terms of the input: for \<open>p\<close>
  as in C2 and any non-empty code \<open>c\<close> without whitespace and without \<open>+\<close> whose upper
  case is none of the three letters, \<open>p w1 + w2 c\<close> parses to \<open>p\<close> and \<open>unknown\<close>.
\<close>

theorem unknown_case_code:
  "(split (clean_prep_string s) (u '' + '') = [l, r] \<and>
    upper (strip r) \<notin> {u ''A'', u ''D'', u ''G''} \<longrightarrow>
      parse_preposition_case s = (Some (strip l), Some (u ''unknown''))) \<and>
   (p \<noteq> [] \<and> 43 \<notin> set p \<and> join (u '' '') (split_ws p) = p \<and>
    (\<forall>x\<in>set w1. is_space x) \<and> (\<forall>x\<in>set w2. is_space x) \<and>
    c \<noteq> [] \<and> (\<forall>x\<in>set c. \<not> is_space x) \<and> 43 \<notin> set c \<and>
    upper c \<notin> {u ''A'', u ''D'', u ''G''} \<longrightarrow>
      parse_preposition_case (p @ w1 @ u ''+'' @ w2 @ c) = (Some p, Some (u ''unknown'')))"
proof (intro conjI impI)
  assume a: "split (clean_prep_string s) (u '' + '') = [l, r] \<and>
    upper (strip r) \<notin> {u ''A'', u ''D'', u ''G''}"
  have "s \<noteq> []"
  proof
    assume "s = []"
    then have "split (clean_prep_string s) (u '' + '') = [[]]"
      by (simp add: clean_prep_string_def strip_def split_ws_def split_def)
    with a show False by simp
  qed
  moreover have "contains (clean_prep_string s) (u '' + '')"
  proof (rule ccontr)
    assume "\<not> contains (clean_prep_string s) (u '' + '')"
    then have "split (clean_prep_string s) (u '' + '') = [clean_prep_string s]"
      using split_from_no_sep[of "clean_prep_string s" "u '' + ''" "[]"] by (simp add: split_def)
    with a show False by simp
  qed
  ultimately show "parse_preposition_case s = (Some (strip l), Some (u ''unknown''))"
    using a by (simp add: parse_preposition_case_def case_mapping_get_def)
next
  assume b: "p \<noteq> [] \<and> 43 \<notin> set p \<and> join (u '' '') (split_ws p) = p \<and>
    (\<forall>x\<in>set w1. is_space x) \<and> (\<forall>x\<in>set w2. is_space x) \<and>
    c \<noteq> [] \<and> (\<forall>x\<in>set c. \<not> is_space x) \<and> 43 \<notin> set c \<and>
    upper c \<notin> {u ''A'', u ''D'', u ''G''}"
  then have "parse_preposition_case (p @ w1 @ u ''+'' @ w2 @ c) =
           (Some p, Some (case_mapping_get (upper c)))"
    by (intro parse_canonical) simp_all
  then show "parse_preposition_case (p @ w1 @ u ''+'' @ w2 @ c) = (Some p, Some (u ''unknown''))"
    using b by (simp add: case_mapping_get_def)
qed

theorem unknown_case_code_witness:
  "split (clean_prep_string (u ''auf + X'')) (u '' + '') = [u ''auf'', u ''X''] \<and>
   upper (strip (u ''X'')) \<notin> {u ''A'', u ''D'', u ''G''} \<and>
   parse_preposition_case (u ''auf + X'') = (Some (u ''auf''), Some (u ''unknown''))"
proof -
  have h1: "split (clean_prep_string (u ''auf + X'')) (u '' + '') = [u ''auf'', u ''X'']"
    by (simp add: clean_prep_string_def u_def strip_def is_space_def split_ws_def
        startswith_def split_def)
  have h2: "upper (strip (u ''X'')) \<notin> {u ''A'', u ''D'', u ''G''}"
    by (simp add: u_def strip_def is_space_def upper_def upper_cp_def)
  have h3: "strip (u ''auf'') = u ''auf''"
    by (simp add: u_def strip_def is_space_def)
  have "parse_preposition_case (u ''auf + X'') = (Some (strip (u ''auf'')), Some (u ''unknown''))"
    using unknown_case_code[of "u ''auf + X''" "u ''auf''" "u ''X''"] h1 h2 by blast
  then show ?thesis using h1 h2 h3 by simp
qed

section \<open>Starting a quiz\<close>

lemma new_bot_empty:
  "new_bot (Inr []) g =
     \<lparr>words_data = [], current_quiz = Map.empty, user_stats = Map.empty, random_state = g\<rparr>"
  by (simp add: new_bot_def load_words_from_airtable_def)

text \<open>
  Claim C10. On an empty vocabulary \<open>start_quiz\<close> raises IndexError for every user
  and leaves the state as it was: no quiz is stored and nothing is sent. The same
  holds for the \<open>/quiz\<close> command and, after the counters of the user have been
  created, for the quiz button. Conversely a \<open>start_quiz\<close> that returns had a
  non-empty vocabulary.
\<close>

theorem start_quiz_empty_index:
  "(words_data b = [] \<longrightarrow>
      start_quiz b user_id = (b, Inl IndexError) \<and>
      handle_event b (Cmd_quiz user_id) = (b, Inl IndexError) \<and>
      handle_event b (Button_click user_id (u ''quiz_beginner'')) =
        (init_stats b user_id, Inl IndexError)) \<and>
   (\<forall>b' r. start_quiz b user_id = (b', Inr r) \<longrightarrow> words_data b \<noteq> [])"
  by (auto simp: start_quiz_def choice_def handle_button_click_def init_stats_def
      startswith_def u_def)

theorem start_quiz_empty_index_witness:
  "words_data (new_bot (Inr []) []) = [] \<and>
   start_quiz (new_bot (Inr []) []) 7 = (new_bot (Inr []) [], Inl IndexError)"
proof -
  have h: "words_data (new_bot (Inr []) []) = []" by (simp add: new_bot_empty)
  then show ?thesis
    using start_quiz_empty_index[of "new_bot (Inr []) []" 7] by blast
qed

section \<open>Sampling and the distractors\<close>

lemma randbelow_less: "0 < n \<Longrightarrow> fst (randbelow n g) < n"
  by (cases g) simp_all

lemma sample_Suc:
  "pool \<noteq> [] \<Longrightarrow>
     sample pool (Suc k) g =
       (let (j, g1) = randbelow (length pool) g;
            (xs, g2) = sample (butlast (pool[j := last pool])) k g1
        in (pool ! j # xs, g2))"
  by (cases pool) (simp_all add: Let_def)

lemma sample_length: "length (fst (sample pool k g)) = min k (length pool)"
proof (induction k arbitrary: pool g)
  case 0
  then show ?case by simp
next
  case (Suc k)
  show ?case
  proof (cases "pool = []")
    case True
    then show ?thesis by simp
  next
    case False
    obtain j g1 where r: "randbelow (length pool) g = (j, g1)"
      by (cases "randbelow (length pool) g")
    obtain xs g2 where s: "sample (butlast (pool[j := last pool])) k g1 = (xs, g2)"
      by (cases "sample (butlast (pool[j := last pool])) k g1")
    have "length xs = min k (length pool - 1)"
      using Suc.IH[of "butlast (pool[j := last pool])" g1] s by simp
    moreover obtain n where "length pool = Suc n" using False by (cases pool) auto
    moreover have "sample pool (Suc k) g = (pool ! j # xs, g2)"
      by (simp add: sample_Suc[OF False] r s)
    ultimately show ?thesis by simp
  qed
qed

lemma set_pool_step: "set (butlast (pool[j := last pool])) \<subseteq> set pool"
proof (cases "pool = []")
  case True
  then show ?thesis by simp
next
  case False
  have "set (butlast (pool[j := last pool])) \<subseteq> set (pool[j := last pool])"
    by (auto dest: in_set_butlastD)
  also have "\<dots> \<subseteq> insert (last pool) (set pool)" by (rule set_update_subset_insert)
  also have "\<dots> = set pool" using False by auto
  finally show ?thesis .
qed

lemma sample_subset: "set (fst (sample pool k g)) \<subseteq> set pool"
proof (induction k arbitrary: pool g)
  case 0
  then show ?case by simp
next
  case (Suc k)
  show ?case
  proof (cases "pool = []")
    case True
    then show ?thesis by simp
  next
    case False
    obtain j g1 where r: "randbelow (length pool) g = (j, g1)"
      by (cases "randbelow (length pool) g")
    obtain xs g2 where s: "sample (butlast (pool[j := last pool])) k g1 = (xs, g2)"
      by (cases "sample (butlast (pool[j := last pool])) k g1")
    have "j < length pool" using randbelow_less[of "length pool" g] r False by simp
    then have x: "pool ! j \<in> set pool" by (rule nth_mem)
    have "set xs \<subseteq> set (butlast (pool[j := last pool]))"
      using Suc.IH[of "butlast (pool[j := last pool])" g1] s by simp
    then have "set xs \<subseteq> set pool" using set_pool_step[of pool j] by blast
    moreover have "sample pool (Suc k) g = (pool ! j # xs, g2)"
      by (simp add: sample_Suc[OF False] r s)
    ultimately show ?thesis using x by simp
  qed
qed

lemma set_set_update: "set (set_update s xs) = set s \<union> set xs"
  unfolding set_update_def by (induction xs arbitrary: s) auto

lemma set_fold_set_update:
  "set (fold (\<lambda>prep_list s. set_update s prep_list) ls s) = set s \<union> \<Union> (set ` set ls)"
  by (induction ls arbitrary: s) (auto simp: set_set_update)

lemma all_preps_eq:
  "all_preps =
     [[97, 117, 102], [102, 252, 114], [103, 101, 103, 101, 110], [100, 117, 114, 99, 104],
      [111, 104, 110, 101], [117, 109], [97, 110], [252, 98, 101, 114], [109, 105, 116],
      [118, 111, 110], [122, 117], [98, 101, 105], [110, 97, 99, 104], [97, 117, 115],
      [118, 111, 114], [105, 110], [117, 110, 116, 101, 114],
      [122, 119, 105, 115, 99, 104, 101, 110], [110, 101, 98, 101, 110],
      [104, 105, 110, 116, 101, 114]]"
  by (simp add: all_preps_def common_prepositions_def set_update_def u_def)

lemma distinct_all_preps: "distinct all_preps"
  by (simp add: all_preps_eq)

lemma length_all_preps: "length all_preps = 20"
  by (simp add: all_preps_eq)

text \<open>
  Claim C8. Whatever the generator draws, the wrong options do not contain the correct
  preposition, they come from the union of the three pools, and there are exactly
  \<open>min(3, |pool \ {p}|)\<close> of them; the union of the pools has at least 10 distinct
  prepositions (it has 20). The same holds for a sample from the remaining
  prepositions listed in any other order, which is the order of a Python set.
\<close>

theorem distractors_exclude_correct:
  "correct_preposition \<notin> set (fst (generate_wrong_options correct_preposition g)) \<and>
   set (fst (generate_wrong_options correct_preposition g)) \<subseteq> set all_preps \<and>
   length (fst (generate_wrong_options correct_preposition g)) =
     min 3 (card (set all_preps - {correct_preposition})) \<and>
   set all_preps = \<Union> (set ` set common_prepositions) \<and>
   10 \<le> card (\<Union> (set ` set common_prepositions)) \<and>
   (\<forall>pool. distinct pool \<and> set pool = set all_preps - {correct_preposition} \<longrightarrow>
      correct_preposition \<notin> set (fst (sample pool (min 3 (length pool)) g)) \<and>
      length (fst (sample pool (min 3 (length pool)) g)) =
        min 3 (card (set all_preps - {correct_preposition})))"
proof -
  let ?rem = "removeAll correct_preposition all_preps"
  have d: "distinct ?rem" using distinct_all_preps by (simp add: distinct_removeAll)
  have s: "set ?rem = set all_preps - {correct_preposition}" by simp
  have l: "length ?rem = card (set all_preps - {correct_preposition})"
    using distinct_card[OF d] s by simp
  have 1: "set (fst (generate_wrong_options correct_preposition g)) \<subseteq> set ?rem"
    unfolding generate_wrong_options_def Let_def by (rule sample_subset)
  have 2: "length (fst (generate_wrong_options correct_preposition g)) =
     min 3 (card (set all_preps - {correct_preposition}))"
    unfolding generate_wrong_options_def Let_def by (simp add: sample_length l)
  have 3: "set all_preps = \<Union> (set ` set common_prepositions)"
    unfolding all_preps_def by (simp add: set_fold_set_update)
  have "card (set all_preps) = 20"
    using distinct_card[OF distinct_all_preps] length_all_preps by simp
  then have 4: "10 \<le> card (\<Union> (set ` set common_prepositions))" using 3 by simp
  have 5: "correct_preposition \<notin> set (fst (sample pool (min 3 (length pool)) g)) \<and>
      length (fst (sample pool (min 3 (length pool)) g)) =
        min 3 (card (set all_preps - {correct_preposition}))"
    if "distinct pool \<and> set pool = set all_preps - {correct_preposition}" for pool
  proof -
    have "length pool = card (set all_preps - {correct_preposition})"
      using distinct_card[of pool] that by simp
    then show ?thesis using sample_subset[of pool "min 3 (length pool)" g] that
      by (auto simp: sample_length)
  qed
  show ?thesis using 1 2 3 4 5 s by blast
qed

theorem distractors_exclude_correct_witness:
  "distinct (removeAll (u ''auf'') all_preps) \<and>
   set (removeAll (u ''auf'') all_preps) = set all_preps - {u ''auf''} \<and>
   u ''auf'' \<notin> set (fst (sample (removeAll (u ''auf'') all_preps)
                            (min 3 (length (removeAll (u ''auf'') all_preps))) [0, 1, 2])) \<and>
   length (fst (generate_wrong_options (u ''auf'') [0, 1, 2])) = 3"
proof -
  have h: "distinct (removeAll (u ''auf'') all_preps) \<and>
   set (removeAll (u ''auf'') all_preps) = set all_preps - {u ''auf''}"
    using distinct_all_preps by (simp add: distinct_removeAll)
  have c: "card (set all_preps - {u ''auf''}) = 19"
    using distinct_card[of "removeAll (u ''auf'') all_preps"] h
    by (simp add: all_preps_eq u_def)
  show ?thesis
    using distractors_exclude_correct[of "u ''auf''" "[0, 1, 2]"] h c by (simp only:) simp
qed


section \<open>The loader\<close>

lemma examine_Accepted:
  assumes "examine r = Accepted k e"
  shows "\<exists>w d. e_word e = Some w \<and> e_example_de e = Some d \<and>
           e_record_id e = Some (rec_id r) \<and> k = w @ u ''_'' @ e_preposition e \<and>
           (d = [] \<or> e_example e = d) \<and> w \<noteq> [] \<and> e_preposition e \<noteq> [] \<and>
           e_wrong_options e = []"
  using assms
  by (auto simp: examine_def Let_def split: option.splits prod.splits if_splits)

lemma loaded_entry_Accepted:
  "examine r = Accepted k e \<Longrightarrow> loaded_entry k (e\<lparr>e_wrong_options := wo\<rparr>)"
  using examine_Accepted[of r k e] by (auto simp: loaded_entry_def)

lemma set_AList_update:
  "set (AList.update k v al) \<subseteq> insert (k, v) (set al)"
  by (induction al) auto

lemma words_load_record:
  "ls_words_data (load_record st r) =
     (case examine r of
        Accepted k e \<Rightarrow>
          AList.update k
            (e\<lparr>e_wrong_options := fst (generate_wrong_options (e_preposition e) (ls_rng st))\<rparr>)
            (ls_words_data st)
      | _ \<Rightarrow> ls_words_data st)"
  by (simp add: load_record_def Let_def split: verdict.splits prod.splits)

lemma skipped_load_record:
  "ls_skipped_count (load_record st r) =
     ls_skipped_count st + (if accepted (examine r) then 0 else 1)"
  by (simp add: load_record_def Let_def split: verdict.splits prod.splits)

lemma log_load_record: "\<exists>lines. ls_log (load_record st r) = ls_log st @ lines"
  by (simp add: load_record_def Let_def split: verdict.splits prod.splits)

lemma loaded_index_load_record:
  assumes "loaded_index (ls_words_data st)"
  shows "loaded_index (ls_words_data (load_record st r))"
proof (cases "examine r")
  case (Accepted k e)
  let ?e = "e\<lparr>e_wrong_options := fst (generate_wrong_options (e_preposition e) (ls_rng st))\<rparr>"
  have w: "ls_words_data (load_record st r) = AList.update k ?e (ls_words_data st)"
    by (simp add: words_load_record Accepted)
  have "distinct (map fst (AList.update k ?e (ls_words_data st)))"
    using assms by (simp add: loaded_index_def distinct_update)
  moreover have "\<forall>(k', e')\<in>set (AList.update k ?e (ls_words_data st)). loaded_entry k' e'"
    using set_AList_update[of k ?e "ls_words_data st"] loaded_entry_Accepted[OF Accepted] assms
    by (auto simp: loaded_index_def)
  ultimately show ?thesis by (simp add: w loaded_index_def)
qed (use assms in \<open>simp_all add: words_load_record\<close>)

lemma loaded_index_foldl:
  "loaded_index (ls_words_data st) \<Longrightarrow> loaded_index (ls_words_data (foldl load_record st rs))"
  by (induction rs arbitrary: st) (simp_all add: loaded_index_load_record)

lemma skipped_foldl:
  "ls_skipped_count (foldl load_record st rs) =
     ls_skipped_count st + int (length (filter (\<lambda>r. \<not> accepted (examine r)) rs))"
  by (induction rs arbitrary: st) (simp_all add: skipped_load_record)

lemma log_foldl: "\<exists>lines. ls_log (foldl load_record st rs) = ls_log st @ lines"
proof (induction rs arbitrary: st)
  case Nil
  then show ?case by simp
next
  case (Cons r rs)
  obtain l1 where "ls_log (load_record st r) = ls_log st @ l1"
    using log_load_record by blast
  moreover obtain l2 where
    "ls_log (foldl load_record (load_record st r) rs) = ls_log (load_record st r) @ l2"
    using Cons by blast
  ultimately show ?case by simp
qed

lemma load_Inr:
  "load_words_from_airtable (Inr records) g =
     (let st = foldl load_record \<lparr>ls_words_data = [], ls_skipped_count = 0,
                       ls_log = [Found_total (length records)], ls_rng = g\<rparr> records
      in (ls_words_data st,
          ls_log st @ [Successfully_loaded (length (ls_words_data st)),
                       Skipped_total (ls_skipped_count st)],
          ls_rng st))"
  by (simp add: load_words_from_airtable_def)

lemma loaded_index_load: "loaded_index (fst (load_words_from_airtable (Inr records) g))"
proof -
  have "loaded_index (ls_words_data \<lparr>ls_words_data = [], ls_skipped_count = 0,
                       ls_log = [Found_total (length records)], ls_rng = g\<rparr>)"
    by (simp add: loaded_index_def)
  then show ?thesis
    unfolding load_Inr Let_def fst_conv by (rule loaded_index_foldl)
qed

lemma map_of_load_record_other:
  "\<forall>e. examine r \<noteq> Accepted k e \<Longrightarrow>
     map_of (ls_words_data (load_record st r)) k = map_of (ls_words_data st) k"
  by (cases "examine r") (auto simp: words_load_record update_conv')

lemma map_of_foldl_other:
  "\<forall>r\<in>set rs. \<forall>e. examine r \<noteq> Accepted k e \<Longrightarrow>
     map_of (ls_words_data (foldl load_record st rs)) k = map_of (ls_words_data st) k"
  by (induction rs arbitrary: st) (simp_all add: map_of_load_record_other)

lemma map_of_load_record_accepted:
  "examine r = Accepted k e \<Longrightarrow>
     map_of (ls_words_data (load_record st r)) k =
       Some (e\<lparr>e_wrong_options := fst (generate_wrong_options (e_preposition e) (ls_rng st))\<rparr>)"
  by (simp add: words_load_record update_conv')

lemma distinct_count_one:
  "distinct (map fst al) \<Longrightarrow> map_of al k = Some v \<Longrightarrow>
     length (filter (\<lambda>(k', v'). k' = k) al) = 1"
proof (induction al)
  case Nil
  then show ?case by simp
next
  case (Cons a al)
  obtain k' v' where a: "a = (k', v')" by (cases a)
  show ?case
  proof (cases "k' = k")
    case True
    then have "k \<notin> fst ` set al" using Cons.prems a by auto
    then have "filter (\<lambda>(k', v'). k' = k) al = []"
      by (force simp: filter_empty_conv)
    then show ?thesis using True a by simp
  next
    case False
    then show ?thesis using Cons a by simp
  qed
qed

text \<open>
  Claim C6. The keys of the loaded index are distinct. When two accepted records have
  the same word and the same preposition, and no record after the later one is
  accepted under that key, then both have the same key, the index has exactly one
  entry for it, and that entry is the one built from the later record, with the wrong
  options that were drawn for it.
\<close>

theorem composite_key_last_wins:
  "distinct (map fst (fst (load_words_from_airtable (Inr records) g))) \<and>
   (\<forall>before r1 between r2 after k1 k2 e1 e2.
      records = before @ r1 # between @ r2 # after \<and>
      examine r1 = Accepted k1 e1 \<and> examine r2 = Accepted k2 e2 \<and>
      e_word e1 = e_word e2 \<and> e_preposition e1 = e_preposition e2 \<and>
      (\<forall>r\<in>set after. \<forall>e. examine r \<noteq> Accepted k2 e) \<longrightarrow>
        k1 = k2 \<and>
        length (filter (\<lambda>(k, e). k = k2) (fst (load_words_from_airtable (Inr records) g))) = 1 \<and>
        (\<exists>g'. map_of (fst (load_words_from_airtable (Inr records) g)) k2 =
                Some (e2\<lparr>e_wrong_options :=
                            fst (generate_wrong_options (e_preposition e2) g')\<rparr>)))"
proof (intro conjI allI impI)
  show d: "distinct (map fst (fst (load_words_from_airtable (Inr records) g)))"
    using loaded_index_load[of records g] by (simp add: loaded_index_def)
  fix before r1 between r2 after k1 k2 e1 e2
  assume a: "records = before @ r1 # between @ r2 # after \<and>
      examine r1 = Accepted k1 e1 \<and> examine r2 = Accepted k2 e2 \<and>
      e_word e1 = e_word e2 \<and> e_preposition e1 = e_preposition e2 \<and>
      (\<forall>r\<in>set after. \<forall>e. examine r \<noteq> Accepted k2 e)"
  show "k1 = k2"
    using a examine_Accepted[of r1 k1 e1] examine_Accepted[of r2 k2 e2] by auto
  define st0 where "st0 = \<lparr>ls_words_data = [], ls_skipped_count = 0,
                       ls_log = [Found_total (length records)], ls_rng = g\<rparr>"
  define st1 where "st1 = foldl load_record st0 (before @ r1 # between)"
  have idx: "fst (load_words_from_airtable (Inr records) g) =
        ls_words_data (foldl load_record (load_record st1 r2) after)"
    using a by (simp add: load_Inr Let_def st0_def st1_def)
  have "map_of (ls_words_data (foldl load_record (load_record st1 r2) after)) k2 =
        map_of (ls_words_data (load_record st1 r2)) k2"
    by (rule map_of_foldl_other) (use a in blast)
  also have "\<dots> = Some (e2\<lparr>e_wrong_options :=
                    fst (generate_wrong_options (e_preposition e2) (ls_rng st1))\<rparr>)"
    by (rule map_of_load_record_accepted) (use a in blast)
  finally have m: "map_of (fst (load_words_from_airtable (Inr records) g)) k2 =
        Some (e2\<lparr>e_wrong_options :=
                    fst (generate_wrong_options (e_preposition e2) (ls_rng st1))\<rparr>)"
    by (simp only: idx)
  then show "\<exists>g'. map_of (fst (load_words_from_airtable (Inr records) g)) k2 =
                Some (e2\<lparr>e_wrong_options :=
                            fst (generate_wrong_options (e_preposition e2) g')\<rparr>)"
    by blast
  show "length (filter (\<lambda>(k, e). k = k2) (fst (load_words_from_airtable (Inr records) g))) = 1"
    using d m by (rule distinct_count_one)
qed


lemmas eval_parse = parse_preposition_case_def clean_prep_string_def u_def strip_def is_space_def
  split_ws_def startswith_def split_def upper_def upper_cp_def case_mapping_get_def

lemmas eval_examine = examine_def required_text_def optional_text_def dict_get_def
  create_example_sentence_def difficulty_of_def Let_def

theorem composite_key_last_wins_witness:
  "\<exists>k e1 e2.
     examine \<lparr>rec_id = u ''rec1'',
              rec_fields = [(u ''Word'', Str (u ''denken'')),
                            (u ''Preposition'', Str (u ''an + A'')),
                            (u ''Example DE'', Str (u ''eins''))]\<rparr> = Accepted k e1 \<and>
     examine \<lparr>rec_id = u ''rec2'',
              rec_fields = [(u ''Word'', Str (u '' denken'')),
                            (u ''Preposition'', Str (u ''an+A'')),
                            (u ''Example DE'', Str (u ''zwei''))]\<rparr> = Accepted k e2 \<and>
     e_word e1 = e_word e2 \<and> e_preposition e1 = e_preposition e2 \<and>
     e_record_id e2 = Some (u ''rec2'') \<and> e_example e2 = u ''zwei'' \<and>
     length (filter (\<lambda>(k', e). k' = k)
       (fst (load_words_from_airtable
          (Inr [\<lparr>rec_id = u ''rec1'',
                  rec_fields = [(u ''Word'', Str (u ''denken'')),
                                (u ''Preposition'', Str (u ''an + A'')),
                                (u ''Example DE'', Str (u ''eins''))]\<rparr>,
                \<lparr>rec_id = u ''rec2'',
                  rec_fields = [(u ''Word'', Str (u '' denken'')),
                                (u ''Preposition'', Str (u ''an+A'')),
                                (u ''Example DE'', Str (u ''zwei''))]\<rparr>]) []))) = 1 \<and>
     (\<exists>g'. map_of
       (fst (load_words_from_airtable
          (Inr [\<lparr>rec_id = u ''rec1'',
                  rec_fields = [(u ''Word'', Str (u ''denken'')),
                                (u ''Preposition'', Str (u ''an + A'')),
                                (u ''Example DE'', Str (u ''eins''))]\<rparr>,
                \<lparr>rec_id = u ''rec2'',
                  rec_fields = [(u ''Word'', Str (u '' denken'')),
                                (u ''Preposition'', Str (u ''an+A'')),
                                (u ''Example DE'', Str (u ''zwei''))]\<rparr>]) [])) k =
        Some (e2\<lparr>e_wrong_options := fst (generate_wrong_options (e_preposition e2) g')\<rparr>))"
proof -
  define r1 where "r1 = \<lparr>rec_id = u ''rec1'',
              rec_fields = [(u ''Word'', Str (u ''denken'')),
                            (u ''Preposition'', Str (u ''an + A'')),
                            (u ''Example DE'', Str (u ''eins''))]\<rparr>"
  define r2 where "r2 = \<lparr>rec_id = u ''rec2'',
              rec_fields = [(u ''Word'', Str (u '' denken'')),
                            (u ''Preposition'', Str (u ''an+A'')),
                            (u ''Example DE'', Str (u ''zwei''))]\<rparr>"
  obtain k e1 where x1: "examine r1 = Accepted k e1"
    and w1: "e_word e1 = Some (u ''denken'')" "e_preposition e1 = u ''an''"
    and k: "k = u ''denken_an''"
    by (simp add: r1_def eval_examine eval_parse)
  obtain e2 where x2: "examine r2 = Accepted k e2"
    and w2: "e_word e2 = Some (u ''denken'')" "e_preposition e2 = u ''an''"
      "e_record_id e2 = Some (u ''rec2'')" "e_example e2 = u ''zwei''"
    by (simp add: r2_def eval_examine eval_parse k)
  have h: "[r1, r2] = [] @ r1 # [] @ r2 # [] \<and>
      examine r1 = Accepted k e1 \<and> examine r2 = Accepted k e2 \<and>
      e_word e1 = e_word e2 \<and> e_preposition e1 = e_preposition e2 \<and>
      (\<forall>r\<in>set []. \<forall>e. examine r \<noteq> Accepted k e)"
    using x1 x2 w1 w2 by simp
  have "length (filter (\<lambda>(k', e). k' = k) (fst (load_words_from_airtable (Inr [r1, r2]) []))) = 1 \<and>
        (\<exists>g'. map_of (fst (load_words_from_airtable (Inr [r1, r2]) [])) k =
                Some (e2\<lparr>e_wrong_options :=
                            fst (generate_wrong_options (e_preposition e2) g')\<rparr>))"
    using composite_key_last_wins[of "[r1, r2]" "[]"] h by blast
  then have "examine r1 = Accepted k e1 \<and> examine r2 = Accepted k e2 \<and>
     e_word e1 = e_word e2 \<and> e_preposition e1 = e_preposition e2 \<and>
     e_record_id e2 = Some (u ''rec2'') \<and> e_example e2 = u ''zwei'' \<and>
     length (filter (\<lambda>(k', e). k' = k) (fst (load_words_from_airtable (Inr [r1, r2]) []))) = 1 \<and>
     (\<exists>g'. map_of (fst (load_words_from_airtable (Inr [r1, r2]) [])) k =
        Some (e2\<lparr>e_wrong_options := fst (generate_wrong_options (e_preposition e2) g')\<rparr>))"
    using x1 x2 w1 w2 by simp
  then have "\<exists>k e1 e2. examine r1 = Accepted k e1 \<and> examine r2 = Accepted k e2 \<and>
     e_word e1 = e_word e2 \<and> e_preposition e1 = e_preposition e2 \<and>
     e_record_id e2 = Some (u ''rec2'') \<and> e_example e2 = u ''zwei'' \<and>
     length (filter (\<lambda>(k', e). k' = k) (fst (load_words_from_airtable (Inr [r1, r2]) []))) = 1 \<and>
     (\<exists>g'. map_of (fst (load_words_from_airtable (Inr [r1, r2]) [])) k =
        Some (e2\<lparr>e_wrong_options := fst (generate_wrong_options (e_preposition e2) g')\<rparr>))"
    by (intro exI)
  then show ?thesis unfolding r1_def r2_def .
qed

text \<open>
  Claim C1, as the code has it. When the fetch raises, the loader returns the built-in
  dictionary of one entry, prints the error line and nothing else, and leaves the
  generator untouched; the line is no count. The loader returns a dictionary and no
  report: the counts are lines printed by a load whose fetch succeeded, first the
  number of records, last the number of entries and the number of records skipped.
\<close>

theorem fetch_failure_fallback:
  "load_words_from_airtable (Inl e) g = (fallback_data, [Error_loading e], g) \<and>
   length fallback_data = 1 \<and>
   \<not> list_ex is_count [Error_loading e] \<and>
   (\<exists>lines.
      fst (snd (load_words_from_airtable (Inr records) g)) =
        Found_total (length records) # lines @
        [Successfully_loaded (length (fst (load_words_from_airtable (Inr records) g))),
         Skipped_total (int (length (filter (\<lambda>r. \<not> accepted (examine r)) records)))])"
proof -
  define st0 where "st0 = \<lparr>ls_words_data = [], ls_skipped_count = 0,
                       ls_log = [Found_total (length records)], ls_rng = g\<rparr>"
  obtain lines where l: "ls_log (foldl load_record st0 records) = ls_log st0 @ lines"
    using log_foldl by blast
  have "fst (snd (load_words_from_airtable (Inr records) g)) =
        Found_total (length records) # lines @
        [Successfully_loaded (length (fst (load_words_from_airtable (Inr records) g))),
         Skipped_total (int (length (filter (\<lambda>r. \<not> accepted (examine r)) records)))]"
    using l skipped_foldl[of st0 records]
    by (simp add: load_Inr Let_def st0_def[symmetric]) (simp add: st0_def)
  then show ?thesis
    by (auto simp: load_words_from_airtable_def fallback_data_def)
qed

text \<open>
  Claim C1 as it is stated fails: after a fetch that raised, nothing the loader returns
  or prints exposes a count of records seen, accepted or skipped.
\<close>

theorem fetch_failure_no_report_counterexample:
  "\<not> list_ex is_count (fst (snd (load_words_from_airtable (Inl (u ''timeout'')) [])))"
  by (simp add: load_words_from_airtable_def)

lemma loaded_entry_fields:
  "loaded_entry k e \<Longrightarrow>
     \<exists>w d r. e_word e = Some w \<and> e_example_de e = Some d \<and> e_record_id e = Some r \<and>
       k = w @ u ''_'' @ e_preposition e \<and> (d = [] \<or> e_example e = d)"
  by (cases "e_word e"; cases "e_example_de e"; cases "e_record_id e")
     (simp_all add: loaded_entry_def)

lemma entries_of_loaded_index:
  assumes "loaded_index wd" and "(k, e) \<in> set wd"
  shows "\<exists>w d r. e_word e = Some w \<and> e_example_de e = Some d \<and> e_record_id e = Some r \<and>
       k = w @ u ''_'' @ e_preposition e \<and> (d = [] \<or> e_example e = d)"
proof -
  have "loaded_entry k e" using assms by (auto simp: loaded_index_def)
  then show ?thesis by (rule loaded_entry_fields)
qed

text \<open>
  Claim C9. No entry of the fallback dictionary has the keys \<open>word\<close>, \<open>example_de\<close>
  and \<open>record_id\<close>; every entry of a dictionary loaded from fetched records has all
  three. The dictionary returned after a failed fetch is the fallback, and on it
  \<open>start_quiz\<close> raises KeyError without storing a quiz, as does
  \<open>get_alternative_prepositions\<close> for every word and preposition.
\<close>

theorem fallback_lacks_word:
  "(\<forall>(k, e)\<in>set fallback_data.
      e_word e = None \<and> e_example_de e = None \<and> e_record_id e = None) \<and>
   (\<forall>(k, e)\<in>set (fst (load_words_from_airtable (Inr records) g)).
      e_word e \<noteq> None \<and> e_example_de e \<noteq> None \<and> e_record_id e \<noteq> None) \<and>
   fst (load_words_from_airtable (Inl err) g) = fallback_data \<and>
   (words_data b = fallback_data \<longrightarrow>
      snd (start_quiz b user_id) = Inl KeyError \<and>
      current_quiz (fst (start_quiz b user_id)) = current_quiz b \<and>
      snd (handle_event b (Cmd_quiz user_id)) = Inl KeyError \<and>
      get_alternative_prepositions (words_data b) word current_preposition = Inl KeyError)"
proof -
  have 1: "\<forall>(k, e)\<in>set fallback_data.
      e_word e = None \<and> e_example_de e = None \<and> e_record_id e = None"
    by (simp add: fallback_data_def)
  have 2: "\<forall>(k, e)\<in>set (fst (load_words_from_airtable (Inr records) g)).
      e_word e \<noteq> None \<and> e_example_de e \<noteq> None \<and> e_record_id e \<noteq> None"
    using entries_of_loaded_index[OF loaded_index_load[of records g]] by fastforce
  have 3: "fst (load_words_from_airtable (Inl err) g) = fallback_data"
    by (simp add: load_words_from_airtable_def)
  have 4: "snd (start_quiz b user_id) = Inl KeyError \<and>
      current_quiz (fst (start_quiz b user_id)) = current_quiz b \<and>
      snd (handle_event b (Cmd_quiz user_id)) = Inl KeyError \<and>
      get_alternative_prepositions (words_data b) word current_preposition = Inl KeyError"
    if "words_data b = fallback_data"
  proof -
    have c: "choice (map fst fallback_data) (random_state b) =
             Inr (u ''achten'', snd (randbelow 1 (random_state b)))"
      by (cases "random_state b") (simp_all add: choice_def fallback_data_def)
    have s: "start_quiz b user_id =
             (b\<lparr>random_state := snd (randbelow 1 (random_state b))\<rparr>, Inl KeyError)"
      by (simp only: start_quiz_def Let_def that c) (simp add: fallback_data_def)
    have g: "get_alternative_prepositions (words_data b) word current_preposition = Inl KeyError"
      using that by (simp add: fallback_data_def)
    show ?thesis using s g by simp
  qed
  show ?thesis using 1 2 3 4 by blast
qed

theorem fallback_lacks_word_witness:
  "words_data (new_bot (Inl (u ''timeout'')) []) = fallback_data \<and>
   snd (start_quiz (new_bot (Inl (u ''timeout'')) []) 7) = Inl KeyError \<and>
   get_alternative_prepositions (words_data (new_bot (Inl (u ''timeout'')) []))
     (u ''achten'') (u ''auf'') = Inl KeyError"
proof -
  have h: "words_data (new_bot (Inl (u ''timeout'')) []) = fallback_data"
    by (simp add: new_bot_def load_words_from_airtable_def)
  then show ?thesis
    using fallback_lacks_word[where b = "new_bot (Inl (u ''timeout'')) []" and user_id = 7
        and word = "u ''achten''" and current_preposition = "u ''auf''"]
    by blast
qed

section \<open>Grading and the counters\<close>

lemma stats_of_init_stats: "stats_of (init_stats b usr) v = stats_of b v"
  by (simp add: init_stats_def stats_of_def)

lemma user_stats_start_quiz: "user_stats (fst (start_quiz b usr)) = user_stats b"
  by (simp add: start_quiz_def Let_def split: sum.splits option.splits prod.splits)

lemma words_start_quiz: "words_data (fst (start_quiz b usr)) = words_data b"
  by (simp add: start_quiz_def Let_def split: sum.splits option.splits prod.splits)

lemma words_init_stats: "words_data (init_stats b usr) = words_data b"
  by (simp add: init_stats_def)

lemma words_handle_quiz_answer: "words_data (fst (handle_quiz_answer b usr d)) = words_data b"
  by (simp add: handle_quiz_answer_def Let_def split: sum.splits option.splits prod.splits)

lemma fst_grade:
  "fst (grade qd s1 alts ans) = count_correct s1 \<or> fst (grade qd s1 alts ans) = s1\<lparr>streak := 0\<rparr>"
  by (simp add: grade_def Let_def)

lemma grade_Not_quite:
  "snd (grade qd s1 alts ans) = Not_quite sh n \<Longrightarrow> fst (grade qd s1 alts ans) = s1\<lparr>streak := 0\<rparr>"
  by (simp add: grade_def Let_def split: if_splits option.splits)


lemma counted_refl: "counted s s"
  by (simp add: counted_def)

lemma counted_inv:
  "counted s s' \<Longrightarrow> 0 \<le> streak s \<and> streak s \<le> best_streak s \<Longrightarrow>
     0 \<le> streak s' \<and> streak s' \<le> best_streak s'"
  by (auto simp: counted_def count_correct_def Let_def)

lemma counted_best: "counted s s' \<Longrightarrow> best_streak s \<le> best_streak s'"
  by (auto simp: counted_def count_correct_def Let_def)

lemma counted_total:
  "counted s s' \<Longrightarrow> 0 \<le> total_questions s \<Longrightarrow> 0 \<le> total_questions s'"
  by (auto simp: counted_def count_correct_def Let_def)

lemma stats_handle_quiz_answer:
  "counted (stats_of b v) (stats_of (fst (handle_quiz_answer b usr d)) v)"
proof -
  have g: "\<And>qd s1 alts ans s2 r. grade qd s1 alts ans = (s2, r) \<Longrightarrow>
      s2 = count_correct s1 \<or> s2 = s1\<lparr>streak := 0\<rparr>"
    using fst_grade by (metis fst_conv)
  show ?thesis
    by (auto simp: handle_quiz_answer_def Let_def stats_of_def counted_def
        split: sum.splits option.splits prod.splits dest: g)
qed

lemma fst_some: "fst ((\<lambda>(b', r). (b', map_sum id Some r)) x) = fst x"
  by (cases x) simp

lemma snd_some: "snd ((\<lambda>(b', r). (b', map_sum id Some r)) x) = map_sum id Some (snd x)"
  by (cases x) simp

lemma stats_handle_button_click:
  "counted (stats_of b v) (stats_of (fst (handle_button_click b usr d)) v)"
  using stats_handle_quiz_answer[of "init_stats b usr" v usr d]
  by (simp add: handle_button_click_def Let_def fst_some stats_of_init_stats counted_refl
      stats_of_def[of "fst (start_quiz (init_stats b usr) usr)"] user_stats_start_quiz
      stats_of_def[of "init_stats b usr", symmetric])

lemma stats_handle_event:
  "counted (stats_of b v) (stats_of (fst (handle_event b ev)) v)"
proof (cases ev)
  case (Cmd_quiz usr)
  have "stats_of (fst (start_quiz b usr)) v = stats_of b v"
    by (simp add: stats_of_def user_stats_start_quiz)
  then show ?thesis using Cmd_quiz by (cases "start_quiz b usr") (simp add: counted_refl)
next
  case (Cmd_refresh fetched)
  obtain wd lg g where "load_words_from_airtable fetched (random_state b) = (wd, lg, g)"
    by (cases "load_words_from_airtable fetched (random_state b)") auto
  then show ?thesis using Cmd_refresh by (simp add: stats_of_def counted_refl)
next
  case (Button_click usr d)
  then show ?thesis by (simp add: stats_handle_button_click)
qed (simp_all add: Let_def stats_of_init_stats counted_refl)

lemma run_snoc: "run b (evs @ [ev]) = fst (handle_event (run b evs) ev)"
  by (simp add: run_def)

lemma run_append: "run b (evs @ evs') = run (run b evs) evs'"
  by (simp add: run_def)

lemma stats_new_bot: "stats_of (new_bot fetched g) v = zero_stats"
  by (simp add: new_bot_def stats_of_def split: prod.splits)

lemma run_inv:
  "0 \<le> streak (stats_of (run (new_bot fetched g) evs) v) \<and>
   streak (stats_of (run (new_bot fetched g) evs) v) \<le>
     best_streak (stats_of (run (new_bot fetched g) evs) v) \<and>
   0 \<le> total_questions (stats_of (run (new_bot fetched g) evs) v)"
proof (induction evs rule: rev_induct)
  case Nil
  then show ?case by (simp add: run_def stats_new_bot zero_stats_def)
next
  case (snoc ev evs)
  have c: "counted (stats_of (run (new_bot fetched g) evs) v)
             (stats_of (run (new_bot fetched g) (evs @ [ev])) v)"
    using stats_handle_event[of "run (new_bot fetched g) evs" v ev] by (simp add: run_snoc)
  show ?case using counted_inv[OF c] counted_total[OF c] snoc by blast
qed

lemma run_best: "best_streak (stats_of b v) \<le> best_streak (stats_of (run b evs) v)"
proof (induction evs rule: rev_induct)
  case Nil
  then show ?case by (simp add: run_def)
next
  case (snoc ev evs)
  have "best_streak (stats_of (run b evs) v) \<le> best_streak (stats_of (run b (evs @ [ev])) v)"
    using stats_handle_event[of "run b evs" v ev] by (simp add: run_snoc counted_best)
  with snoc show ?case by linarith
qed

lemma handle_quiz_answer_Not_quite:
  assumes "handle_quiz_answer b usr d = (b', Inr (Not_quite sh n))"
  shows "streak (stats_of b' usr) = 0"
proof -
  have g: "streak s2 = 0" if "grade qd s1 alts ans = (s2, Not_quite sh n)" for qd s1 alts ans s2
    using grade_Not_quite[of qd s1 alts ans sh n] that by simp
  show ?thesis
    using assms
    by (auto simp: handle_quiz_answer_def Let_def stats_of_def
        split: sum.splits option.splits prod.splits if_splits dest: g)
qed

lemma handle_button_click_alt:
  "handle_button_click b usr d =
     (if startswith d (u ''quiz_'')
      then (fst (start_quiz (init_stats b usr) usr),
            map_sum id Some (snd (start_quiz (init_stats b usr) usr)))
      else if d = u ''show_stats''
      then (init_stats b usr,
            Inr (Some (Stats_text (stats_of (init_stats b usr) usr)
                         (length (words_data (init_stats b usr))))))
      else if d = u ''help'' then (init_stats b usr, Inr (Some Help_text))
      else if startswith d (u ''answer_'')
      then (fst (handle_quiz_answer (init_stats b usr) usr d),
            map_sum id Some (snd (handle_quiz_answer (init_stats b usr) usr d)))
      else (init_stats b usr, Inr None))"
  by (simp add: handle_button_click_def Let_def case_prod_beta)

lemma map_sum_Some: "map_sum id Some x = Inr (Some y) \<longleftrightarrow> x = Inr y"
  by (cases x) auto

lemma start_quiz_response: "snd (start_quiz b usr) = Inr r \<Longrightarrow> \<exists>w opts. r = Quiz w opts"
  by (auto simp: start_quiz_def Let_def split: sum.splits option.splits prod.splits)

lemma handle_button_click_Not_quite:
  assumes "snd (handle_button_click b usr d) = Inr (Some (Not_quite sh n))"
  shows "streak (stats_of (fst (handle_button_click b usr d)) usr) = 0"
proof -
  have q: "snd (start_quiz (init_stats b usr) usr) \<noteq> Inr (Not_quite sh n)"
    using start_quiz_response[of "init_stats b usr" usr "Not_quite sh n"] by auto
  have "snd (handle_quiz_answer (init_stats b usr) usr d) = Inr (Not_quite sh n) \<and>
        fst (handle_button_click b usr d) = fst (handle_quiz_answer (init_stats b usr) usr d)"
    using assms q
    by (simp add: handle_button_click_alt map_sum_Some split: if_splits)
  then show ?thesis
    using handle_quiz_answer_Not_quite[of "init_stats b usr" usr d
        "fst (handle_quiz_answer (init_stats b usr) usr d)" sh n]
    by (simp add: prod_eq_iff)
qed

text \<open>
  Claim C5. In every state the bot reaches from its start, through any sequence of
  commands, button clicks and refreshes, the streak and the best streak of every user
  are non-negative and the streak is at most the best streak; the best streak never
  decreases along any continuation; and right after an answer graded as incorrect
  the streak of that user is 0. A user without counters yet has them at zero.
\<close>

theorem streak_invariants:
  "0 \<le> streak (stats_of (run (new_bot fetched g) evs) v) \<and>
   0 \<le> best_streak (stats_of (run (new_bot fetched g) evs) v) \<and>
   streak (stats_of (run (new_bot fetched g) evs) v) \<le>
     best_streak (stats_of (run (new_bot fetched g) evs) v) \<and>
   best_streak (stats_of (run (new_bot fetched g) evs) v) \<le>
     best_streak (stats_of (run (new_bot fetched g) (evs @ evs')) v) \<and>
   (\<forall>sh n. snd (handle_event (run (new_bot fetched g) evs) (Button_click v data)) =
              Inr (Some (Not_quite sh n)) \<longrightarrow>
      streak (stats_of (run (new_bot fetched g) (evs @ [Button_click v data])) v) = 0)"
proof -
  have 1: "0 \<le> streak (stats_of (run (new_bot fetched g) evs) v) \<and>
   streak (stats_of (run (new_bot fetched g) evs) v) \<le>
     best_streak (stats_of (run (new_bot fetched g) evs) v)"
    using run_inv[of fetched g evs v] by blast
  have 2: "best_streak (stats_of (run (new_bot fetched g) evs) v) \<le>
     best_streak (stats_of (run (new_bot fetched g) (evs @ evs')) v)"
    by (simp add: run_append run_best)
  have 3: "streak (stats_of (run (new_bot fetched g) (evs @ [Button_click v data])) v) = 0"
    if "snd (handle_event (run (new_bot fetched g) evs) (Button_click v data)) =
              Inr (Some (Not_quite sh n))" for sh n
    using that handle_button_click_Not_quite[of "run (new_bot fetched g) evs" v data sh n]
    by (simp add: run_snoc)
  show ?thesis using 1 2 3 by (intro conjI allI impI) linarith+
qed


lemma index_ok_load: "index_ok (fst (load_words_from_airtable fetched g))"
proof (cases fetched)
  case (Inl e)
  then show ?thesis by (simp add: index_ok_def load_words_from_airtable_def)
next
  case (Inr records)
  then show ?thesis using loaded_index_load[of records g] by (simp add: index_ok_def)
qed

lemma words_handle_button_click: "words_data (fst (handle_button_click b usr d)) = words_data b"
  by (simp add: handle_button_click_alt words_start_quiz words_init_stats
      words_handle_quiz_answer)

lemma index_ok_handle_event:
  assumes ok: "index_ok (words_data b)"
  shows "index_ok (words_data (fst (handle_event b ev)))"
proof (cases ev)
  case (Cmd_quiz usr)
  then show ?thesis
    using ok words_start_quiz[of b usr] by (cases "start_quiz b usr") simp
next
  case (Cmd_refresh fetched)
  obtain wd lg g where l: "load_words_from_airtable fetched (random_state b) = (wd, lg, g)"
    by (cases "load_words_from_airtable fetched (random_state b)") auto
  then show ?thesis
    using Cmd_refresh index_ok_load[of fetched "random_state b"] by simp
next
  case (Button_click usr d)
  then show ?thesis using ok by (simp add: words_handle_button_click)
qed (use ok in \<open>simp_all add: Let_def words_init_stats\<close>)

lemma index_ok_run: "index_ok (words_data (run (new_bot fetched g) evs))"
proof (induction evs rule: rev_induct)
  case Nil
  obtain wd lg g' where l: "load_words_from_airtable fetched g = (wd, lg, g')"
    by (cases "load_words_from_airtable fetched g") auto
  then show ?case using index_ok_load[of fetched g] by (simp add: run_def new_bot_def)
next
  case (snoc ev evs)
  then show ?case by (simp add: run_snoc index_ok_handle_event)
qed

lemma loaded_index_Cons:
  "loaded_index ((k, d) # rest) \<Longrightarrow>
     loaded_index rest \<and> loaded_entry k d \<and> k \<notin> fst ` set rest"
  by (auto simp: loaded_index_def)

lemma get_alternatives_loaded:
  "loaded_index wd \<Longrightarrow> \<exists>alts. get_alternative_prepositions wd w c = Inr alts"
proof (induction wd)
  case Nil
  then show ?case by simp
next
  case (Cons a wd)
  obtain k d where a: "a = (k, d)" by (cases a)
  have l: "loaded_index wd" "loaded_entry k d"
    using Cons.prems a loaded_index_Cons by blast+
  obtain alts where "get_alternative_prepositions wd w c = Inr alts"
    using Cons.IH l by blast
  moreover obtain x where "e_word d = Some x" using loaded_entry_fields[OF l(2)] by blast
  ultimately show ?case by (simp add: a)
qed

lemma alt_example_loaded: "loaded_entry k e \<Longrightarrow> alt_example (alternative_of e) = e_example e"
  using loaded_entry_fields[of k e] by (auto simp: alternative_of_def)

lemma find_alternative:
  assumes "loaded_index wd" and "(k2, e2) \<in> set wd" and "e_word e2 = Some w"
      and "e_preposition e2 \<noteq> c"
      and "get_alternative_prepositions wd w c = Inr alts"
  shows "find (\<lambda>alt. alt_preposition alt = e_preposition e2) alts = Some (alternative_of e2)"
  using assms
proof (induction wd arbitrary: alts)
  case Nil
  then show ?case by simp
next
  case (Cons a wd)
  obtain k d where a: "a = (k, d)" by (cases a)
  have l: "loaded_index wd" "loaded_entry k d" "k \<notin> fst ` set wd"
    using Cons.prems(1) a loaded_index_Cons by blast+
  obtain x where x: "e_word d = Some x" "k = x @ u ''_'' @ e_preposition d"
    using loaded_entry_fields[OF l(2)] by blast
  obtain rest_alts where r: "get_alternative_prepositions wd w c = Inr rest_alts"
    using get_alternatives_loaded[OF l(1)] by blast
  show ?case
  proof (cases "(k2, e2) = (k, d)")
    case True
    then have "alts = alternative_of e2 # rest_alts"
      using Cons.prems a r x by simp
    then show ?thesis by (simp add: alternative_of_def)
  next
    case False
    then have m: "(k2, e2) \<in> set wd" using Cons.prems(2) a by auto
    have ih: "find (\<lambda>alt. alt_preposition alt = e_preposition e2) rest_alts =
              Some (alternative_of e2)"
      using Cons.IH[OF l(1) m Cons.prems(3) Cons.prems(4) r] .
    have k2: "k2 = w @ u ''_'' @ e_preposition e2"
      using entries_of_loaded_index[OF l(1) m] Cons.prems(3) by auto
    show ?thesis
    proof (cases "x = w \<and> e_preposition d \<noteq> c")
      case True
      have "e_preposition d \<noteq> e_preposition e2"
      proof
        assume "e_preposition d = e_preposition e2"
        then have "k = k2" using x True k2 by simp
        then show False using l(3) m by force
      qed
      moreover have "alts = alternative_of d # rest_alts"
        using Cons.prems(5) a r x True by simp
      ultimately show ?thesis using ih by (simp add: alternative_of_def)
    next
      case False
      then have "alts = rest_alts" using Cons.prems(5) a r x by auto
      then show ?thesis using ih by simp
    qed
  qed
qed

lemma total_grade: "total_questions (fst (grade qd s1 alts ans)) = total_questions s1"
  by (simp add: grade_def Let_def count_correct_def)

lemma handle_quiz_answer_graded:
  assumes "current_quiz b usr = Some qd" and "user_stats b usr = Some s0"
      and "get_alternative_prepositions (words_data b) (q_word qd) (q_correct_preposition qd) =
             Inr alts"
      and "total_questions s0 + 1 \<noteq> 0"
  shows "handle_quiz_answer b usr d =
           (b\<lparr>user_stats := (user_stats b)(usr \<mapsto>
                 fst (grade qd (s0\<lparr>total_questions := total_questions s0 + 1\<rparr>) alts
                        (replace (u ''answer_'') [] d))),
              current_quiz := (current_quiz b)(usr := None)\<rparr>,
            Inr (snd (grade qd (s0\<lparr>total_questions := total_questions s0 + 1\<rparr>) alts
                        (replace (u ''answer_'') [] d))))"
  using assms total_grade[of qd "s0\<lparr>total_questions := total_questions s0 + 1\<rparr>" alts
      "replace (u ''answer_'') [] d"]
  by (simp add: handle_quiz_answer_def Let_def case_prod_beta)

lemma grade_alternative:
  assumes "ans \<noteq> q_correct_preposition qd"
      and "find (\<lambda>alt. alt_preposition alt = ans) alts = Some alt"
  shows "fst (grade qd s1 alts ans) = count_correct s1"
    and "\<exists>sh letter. snd (grade qd s1 alts ans) =
           Also_correct sh (streak s1 + 1) ans letter (alt_example alt) \<and>
           s_example_text sh = (if q_example_de qd \<noteq> [] then q_example_de qd else q_example qd)"
  using assms by (simp_all add: grade_def Let_def count_correct_def)

text \<open>
  Claim C3 (\<open>ueber\<close> stands for the preposition spelled with u with diaeresis).
  In a state the bot has reached, let the index hold an entry for
  \<open>denken\<close> with \<open>an\<close> and one for \<open>denken\<close> with \<open>ueber\<close>, both accusative, and let
  the user have a pending quiz for \<open>denken\<close> and \<open>an\<close>. Then the answer button
  \<open>ueber\<close> is graded as also correct: the correct answers and the streak grow by one,
  the quiz is deleted, and the message shows the example of the alternative entry and
  the example text of the pending quiz, which is the example of the asked entry when
  the quiz was taken from it.
\<close>

theorem alternative_accepted:
  assumes "b = run (new_bot fetched g) evs"
      and "(k1, e1) \<in> set (words_data b)" and "e_word e1 = Some (u ''denken'')"
      and "e_preposition e1 = u ''an''" and "e_case e1 = u ''accusative''"
      and "(k2, e2) \<in> set (words_data b)" and "e_word e2 = Some (u ''denken'')"
      and "e_preposition e2 = [252] @ u ''ber''" and "e_case e2 = u ''accusative''"
      and "current_quiz b user_id = Some qd" and "q_word qd = u ''denken''"
      and "q_correct_preposition qd = u ''an''"
  shows "\<exists>sh letter.
      snd (handle_event b (Button_click user_id (u ''answer_'' @ [252] @ u ''ber''))) =
        Inr (Some (Also_correct sh (streak (stats_of b user_id) + 1) ([252] @ u ''ber'') letter
                     (e_example e2))) \<and>
      s_example_text sh = (if q_example_de qd \<noteq> [] then q_example_de qd else q_example qd) \<and>
      (q_example qd = e_example e1 \<and>
       q_example_de qd = (case e_example_de e1 of None \<Rightarrow> [] | Some d \<Rightarrow> d) \<longrightarrow>
         s_example_text sh = e_example e1) \<and>
      correct_answers
        (stats_of (fst (handle_event b (Button_click user_id (u ''answer_'' @ [252] @ u ''ber''))))
           user_id) = correct_answers (stats_of b user_id) + 1 \<and>
      streak
        (stats_of (fst (handle_event b (Button_click user_id (u ''answer_'' @ [252] @ u ''ber''))))
           user_id) = streak (stats_of b user_id) + 1 \<and>
      current_quiz
        (fst (handle_event b (Button_click user_id (u ''answer_'' @ [252] @ u ''ber''))))
        user_id = None"
proof -
  define d where "d = u ''answer_'' @ [252] @ u ''ber''"
  define b0 where "b0 = init_stats b user_id"
  define s0 where "s0 = stats_of b user_id"
  define s1 where "s1 = s0\<lparr>total_questions := total_questions s0 + 1\<rparr>"
  have "words_data b \<noteq> fallback_data"
    using assms(6,7) by (auto simp: fallback_data_def)
  then have li: "loaded_index (words_data b)"
    using index_ok_run[of fetched g evs] assms(1) by (simp add: index_ok_def)
  have tot: "0 \<le> total_questions s0"
    using run_inv[of fetched g evs user_id] assms(1) by (simp add: s0_def)
  have ans: "replace (u ''answer_'') [] d = [252] @ u ''ber''"
    by (simp add: d_def u_def startswith_def)
  have br: "\<not> startswith d (u ''quiz_'')" "d \<noteq> u ''show_stats''" "d \<noteq> u ''help''"
    "startswith d (u ''answer_'')"
    by (simp_all add: d_def u_def startswith_def)
  have b0: "current_quiz b0 user_id = Some qd" "user_stats b0 user_id = Some s0"
    "words_data b0 = words_data b" "stats_of b0 user_id = s0"
    using assms(10) by (auto simp: b0_def init_stats_def s0_def stats_of_def zero_stats_def)
  obtain alts where alts: "get_alternative_prepositions (words_data b) (u ''denken'') (u ''an'') =
      Inr alts"
    using get_alternatives_loaded[OF li] by blast
  have ne: "e_preposition e2 \<noteq> u ''an''" using assms(8) by (simp add: u_def)
  have f: "find (\<lambda>alt. alt_preposition alt = [252] @ u ''ber'') alts = Some (alternative_of e2)"
    using find_alternative[OF li assms(6) assms(7) ne alts] assms(8) by simp
  have ex2: "alt_example (alternative_of e2) = e_example e2"
    using entries_of_loaded_index[OF li assms(6)] by (auto simp: alternative_of_def)
  have h: "handle_quiz_answer b0 user_id d =
           (b0\<lparr>user_stats := (user_stats b0)(user_id \<mapsto>
                 fst (grade qd s1 alts ([252] @ u ''ber''))),
              current_quiz := (current_quiz b0)(user_id := None)\<rparr>,
            Inr (snd (grade qd s1 alts ([252] @ u ''ber''))))"
    using handle_quiz_answer_graded[OF b0(1) b0(2), of alts d] alts tot assms(11,12)
    by (simp add: b0(3) ans s1_def)
  have wrong: "[252] @ u ''ber'' \<noteq> q_correct_preposition qd"
    using assms(12) by (simp add: u_def)
  obtain sh letter where g:
    "snd (grade qd s1 alts ([252] @ u ''ber'')) =
       Also_correct sh (streak s1 + 1) ([252] @ u ''ber'') letter (e_example e2)"
    "s_example_text sh = (if q_example_de qd \<noteq> [] then q_example_de qd else q_example qd)"
    using grade_alternative(2)[OF wrong f, of s1] ex2 by auto
  have g1: "fst (grade qd s1 alts ([252] @ u ''ber'')) = count_correct s1"
    using grade_alternative(1)[OF wrong f] .
  have ev: "handle_button_click b user_id d =
          (fst (handle_quiz_answer b0 user_id d), map_sum id Some (snd (handle_quiz_answer b0 user_id d)))"
    using br by (simp add: handle_button_click_alt b0_def)
  have asked: "s_example_text sh = e_example e1"
    if "q_example qd = e_example e1 \<and>
        q_example_de qd = (case e_example_de e1 of None \<Rightarrow> [] | Some d \<Rightarrow> d)"
    using entries_of_loaded_index[OF li assms(2)] that g(2) by auto
  have "snd (handle_event b (Button_click user_id d)) =
        Inr (Some (Also_correct sh (streak s0 + 1) ([252] @ u ''ber'') letter (e_example e2)))"
    using ev h g(1) by (simp add: s1_def)
  moreover have "stats_of (fst (handle_event b (Button_click user_id d))) user_id = count_correct s1"
    using ev h g1 by (simp add: stats_of_def)
  moreover have "current_quiz (fst (handle_event b (Button_click user_id d))) user_id = None"
    using ev h by simp
  ultimately show ?thesis
    using g(2) asked unfolding d_def[symmetric] s0_def[symmetric]
    by (intro exI[of _ sh] exI[of _ letter]) (simp add: s1_def count_correct_def Let_def)
qed

end
